theory Spec2Isabelle
  imports
    Complex_Main
    "HOL-Library.Char_ord"
    "HOL-Library.List_Lexorder"
    "HOL-Library.Multiset"
    "HOL-Library.Product_Lexorder"
    "HOL-Library.Sublist"
begin

section \<open>Configuration (config.py)\<close>

text \<open>
  Floating-point cells are modelled as \<open>real option\<close>: \<open>None\<close> is pandas' NaN (a missing
  value), \<open>Some x\<close> a number. Rounding and infinities of IEEE doubles are not modelled.
\<close>

type_synonym float64 = "real option"

definition YEAR_START :: nat where
  "YEAR_START = 2000"

definition YEAR_END :: nat where
  "YEAR_END = 2024"

definition EXPECTED_QUARTERS :: nat where
  "EXPECTED_QUARTERS = (YEAR_END - YEAR_START + 1) * 4"

definition EXCLUDED_SECTORS :: "string set" where
  "EXCLUDED_SECTORS = {''Financial Services'', ''Banks'', ''Insurance''}"

record RatioDef =
  name :: string
  numerator_col :: string
  numerator_src :: string
  denominator_col :: string
  denominator_src :: string

definition mk_ratio :: "string \<Rightarrow> string \<Rightarrow> string \<Rightarrow> string \<Rightarrow> string \<Rightarrow> RatioDef" where
  "mk_ratio n nc ns dc ds =
     \<lparr>name = n, numerator_col = nc, numerator_src = ns,
      denominator_col = dc, denominator_src = ds\<rparr>"

text \<open>The display label and the category of a ratio are not used by the pipeline.\<close>

definition RATIOS :: "RatioDef list" where
  "RATIOS =
    [mk_ratio ''ROA'' ''netIncome'' ''income'' ''totalAssets'' ''balance'',
     mk_ratio ''ROE'' ''netIncome'' ''income'' ''totalStockholderEquity'' ''balance'',
     mk_ratio ''EBIT_margin'' ''ebit'' ''income'' ''totalRevenue'' ''income'',
     mk_ratio ''fcf_margin'' ''freeCashFlow'' ''cashflow'' ''totalRevenue'' ''income'',
     mk_ratio ''current_ratio'' ''totalCurrentAssets'' ''balance''
        ''totalCurrentLiabilities'' ''balance'',
     mk_ratio ''debt_to_equity'' ''shortLongTermDebtTotal'' ''balance''
        ''totalStockholderEquity'' ''balance'',
     mk_ratio ''equity_ratio'' ''totalStockholderEquity'' ''balance'' ''totalAssets'' ''balance'']"

definition RATIO_NAMES :: "string list" where
  "RATIO_NAMES = map name RATIOS"

definition AR_ORDER :: nat where
  "AR_ORDER = 1"

definition DIFF_ORDER :: nat where
  "DIFF_ORDER = 1"

definition WINSORIZE_QUANTILES :: "real \<times> real" where
  "WINSORIZE_QUANTILES = (1 / 100, 99 / 100)"

section \<open>Sector filter (load\_data.py)\<close>

text \<open>
  A profile CSV is either unreadable (\<open>pd.read_csv\<close> with the two columns raises, and the
  exception is swallowed) or a list of rows \<open>(symbol, sector)\<close>. A cell is \<open>Some s\<close> when
  \<open>pd.read_csv\<close> returns the string \<open>s\<close>, and \<open>None\<close> when it returns NaN (an empty cell,
  or a text such as \<open>NA\<close>). The sector of the first row, through \<open>str\<close>, is stored under the
  symbol of the first row; a later file overwrites an earlier one. An entry under a NaN
  symbol is never found by a ticker, so the map of the model keeps only string keys.
\<close>

datatype profile = Unreadable | Profile "(string option \<times> string option) list"

definition str_cell :: "string option \<Rightarrow> string" where
  "str_cell v = (case v of None \<Rightarrow> ''nan'' | Some s \<Rightarrow> s)"

fun sector_step :: "(string \<rightharpoonup> string) \<Rightarrow> profile \<Rightarrow> (string \<rightharpoonup> string)" where
  "sector_step sector_map Unreadable = sector_map"
| "sector_step sector_map (Profile []) = sector_map"
| "sector_step sector_map (Profile ((None, sector) # _)) = sector_map"
| "sector_step sector_map (Profile ((Some symbol, sector) # _)) =
     sector_map(symbol \<mapsto> str_cell sector)"

definition load_sector_map :: "profile list \<Rightarrow> (string \<rightharpoonup> string)" where
  "load_sector_map profiles = foldl sector_step Map.empty profiles"

text \<open>\<open>dict.get(key, default)\<close>.\<close>

definition dict_get :: "('k \<rightharpoonup> 'v) \<Rightarrow> 'k \<Rightarrow> 'v \<Rightarrow> 'v" where
  "dict_get m k d = (case m k of None \<Rightarrow> d | Some v \<Rightarrow> v)"

definition filter_sectors :: "string list \<Rightarrow> (string \<rightharpoonup> string) \<Rightarrow> string list" where
  "filter_sectors tickers sector_map =
     [t \<leftarrow> tickers. dict_get sector_map t '''' \<notin> EXCLUDED_SECTORS]"

section \<open>Calendar quarters and raw statement files (load\_data.py)\<close>

text \<open>
  A date is \<open>(year, month, day)\<close>, ordered lexicographically; a calendar quarter (a pandas
  \<open>Period\<close> of frequency Q) is \<open>(year, quarter)\<close> with the quarter in 1..4, ordered the same
  way. \<open>period_range\<close> enumerates the quarters between two periods through their ordinals.
\<close>

type_synonym date = "nat \<times> nat \<times> nat"

type_synonym period = "nat \<times> nat"

definition year :: "date \<Rightarrow> nat" where
  "year d = fst d"

definition month :: "date \<Rightarrow> nat" where
  "month d = fst (snd d)"

definition to_period :: "date \<Rightarrow> period" where
  "to_period d = (year d, (month d - 1) div 3 + 1)"

definition period_ordinal :: "period \<Rightarrow> nat" where
  "period_ordinal p = 4 * fst p + (snd p - 1)"

definition period_of_ordinal :: "nat \<Rightarrow> period" where
  "period_of_ordinal n = (n div 4, n mod 4 + 1)"

definition period_range :: "period \<Rightarrow> period \<Rightarrow> period list" where
  "period_range start stop =
     map period_of_ordinal [period_ordinal start ..< Suc (period_ordinal stop)]"

definition digit_char :: "nat \<Rightarrow> char" where
  "digit_char n = ''0123456789'' ! n"

fun digits :: "nat \<Rightarrow> string" where
  "digits n = (if n < 10 then [digit_char n] else digits (n div 10) @ [digit_char (n mod 10)])"

text \<open>\<open>str\<close> of a quarterly period, as in \<open>2013Q2\<close>.\<close>

definition period_str :: "period \<Rightarrow> string" where
  "period_str p = digits (fst p) @ ''Q'' @ digits (snd p)"

text \<open>
  A raw frame is what \<open>pd.read_csv\<close> returns for one file: its column names and its rows. Of
  a row the model keeps the value of \<open>pd.to_datetime(date, errors="coerce")\<close> (\<open>None\<close> is
  NaT, an unparseable date) and the cell of every column; \<open>Text\<close> is a cell that
  \<open>pd.to_numeric\<close> cannot read as a number.
\<close>

datatype cell = Num real | Text string | Blank

fun to_numeric :: "cell \<Rightarrow> float64" where
  "to_numeric (Num x) = Some x"
| "to_numeric (Text s) = None"
| "to_numeric Blank = None"

record raw_row =
  rdate :: "date option"
  rcells :: "string \<Rightarrow> cell"

record raw_frame =
  rcolumns :: "string list"
  rrows :: "raw_row list"

text \<open>
  A data frame indexed by quarter: the column names and, for every index label, the cells
  of that row. Frames are rectangular, so a row is a function of the column name (its
  value outside \<open>columns\<close> is never read).
\<close>

record dataframe =
  columns :: "string list"
  rows :: "(period \<times> (string \<Rightarrow> float64)) list"

text \<open>
  The file system: for each source name the CSV files of its folder, as pairs of the file
  stem (the ticker) and the content. \<open>Unparsable\<close> is a file on which \<open>pd.read_csv\<close> raises
  (a file of zero bytes, for one); \<open>Csv\<close> holds what it returns otherwise.
\<close>

datatype csv = Unparsable | Csv raw_frame

type_synonym filesystem = "string \<Rightarrow> (string \<times> csv) list"

datatype error = KeyError string | TypeError | IndexError | RuntimeError string | ParserError

fun and_then :: "error + 'a \<Rightarrow> ('a \<Rightarrow> error + 'b) \<Rightarrow> error + 'b" where
  "and_then (Inl e) f = Inl e"
| "and_then (Inr x) f = f x"

text \<open>\<open>get_ticker_universe\<close>: the sorted intersection of the stems of the three folders.\<close>

definition csv_tickers :: "(string \<times> csv) list \<Rightarrow> string set" where
  "csv_tickers folder = set (map fst folder)"

definition get_ticker_universe :: "filesystem \<Rightarrow> string list" where
  "get_ticker_universe fs =
     sort (remdups [t \<leftarrow> map fst (fs ''income'').
              t \<in> csv_tickers (fs ''balance'') \<and> t \<in> csv_tickers (fs ''cashflow'')])"

text \<open>\<open>drop_duplicates(subset, keep="last")\<close>: a row stays iff no later row has its key.\<close>

fun drop_duplicates_last :: "('a \<Rightarrow> 'k) \<Rightarrow> 'a list \<Rightarrow> 'a list" where
  "drop_duplicates_last key [] = []"
| "drop_duplicates_last key (x # xs) =
     (if key x \<in> key ` set xs then drop_duplicates_last key xs
      else x # drop_duplicates_last key xs)"

definition META_COLS :: "string list" where
  "META_COLS = [''date'', ''filing_date'', ''currency_symbol'', ''symbol'']"

text \<open>
  \<open>df.sort_values("date")\<close> uses the default sort of pandas, which is not stable: rows with
  equal dates may come out in any order. The sort is therefore a parameter of the model;
  what is known of it is \<open>sorts_by_date\<close>: the result holds the same rows, in ascending
  order of the date.
\<close>

type_synonym dated_row = "period \<times> date \<times> raw_row"

type_synonym sort_values = "dated_row list \<Rightarrow> dated_row list"

definition sorts_by_date :: "sort_values \<Rightarrow> bool" where
  "sorts_by_date sv \<longleftrightarrow>
     (\<forall>xs. mset (sv xs) = mset xs \<and> sorted (map (\<lambda>(q, d, r). d) (sv xs)))"

text \<open>
  \<open>_load_source\<close>. The steps of the source, in order: absent file; the file read; no date
  column or no row; rows with NaT dropped; years outside the range dropped; the quarter
  of each date; sorted by date and the last row of each quarter kept; indexed and sorted
  by quarter (the labels are distinct by then); metadata columns dropped (the \<open>quarter\<close>
  column became the index); cells coerced to numbers.
\<close>

definition load_source ::
  "sort_values \<Rightarrow> filesystem \<Rightarrow> string \<Rightarrow> string \<Rightarrow> error + dataframe option" where
  "load_source sv fs ticker src_name =
     (case map_of (fs src_name) ticker of
        None \<Rightarrow> Inr None
      | Some Unparsable \<Rightarrow> Inl ParserError
      | Some (Csv df) \<Rightarrow>
          if ''date'' \<notin> set (rcolumns df) \<or> length (rrows df) = 0 then Inr None
          else
            let dated = List.map_filter (\<lambda>r. map_option (\<lambda>d. (d, r)) (rdate r)) (rrows df);
                ranged = [(d, r) \<leftarrow> dated. YEAR_START \<le> year d \<and> year d \<le> YEAR_END];
                quartered = map (\<lambda>(d, r). (to_period d, d, r)) ranged;
                latest = drop_duplicates_last fst (sv quartered);
                indexed = sort_key fst latest
            in Inr (Some \<lparr>columns = [c \<leftarrow> rcolumns df. c \<notin> set (''quarter'' # META_COLS)],
                     rows = map (\<lambda>(q, d, r). (q, \<lambda>c. to_numeric (rcells r c))) indexed\<rparr>))"

section \<open>Completeness filter\<close>

definition build_expected_quarters :: "period list" where
  "build_expected_quarters = period_range (YEAR_START, 1) (YEAR_END, 4)"

definition EXPECTED_QTR_INDEX :: "period list" where
  "EXPECTED_QTR_INDEX = build_expected_quarters"

text \<open>
  \<open>_is_complete\<close> walks the dictionary of the loaded sources in insertion order and
  returns at the first absent or incomplete one.
\<close>

type_synonym sources = "(string \<times> dataframe option) list"

fun is_complete :: "sources \<Rightarrow> bool" where
  "is_complete [] = True"
| "is_complete ((src_name, None) # dfs) = False"
| "is_complete ((src_name, Some df) # dfs) =
     (if \<not> list_all (\<lambda>q. q \<in> set (map fst (rows df))) EXPECTED_QTR_INDEX then False
      else is_complete dfs)"

section \<open>Ratio computation\<close>

text \<open>
  A series is a column with its index. Arithmetic on two series aligns them on the index
  label, and assigning a series as a column of a frame reads it at the labels of that
  frame; a label that a series lacks reads as NaN. Any operation on NaN gives NaN.
\<close>

type_synonym series = "(period \<times> float64) list"

definition series_at :: "series \<Rightarrow> period \<Rightarrow> float64" where
  "series_at s q = (case map_of s q of None \<Rightarrow> None | Some v \<Rightarrow> v)"

definition fdiv :: "float64 \<Rightarrow> float64 \<Rightarrow> float64" where
  "fdiv a b = (case (a, b) of (Some x, Some y) \<Rightarrow> Some (x / y) | _ \<Rightarrow> None)"

text \<open>\<open>den.replace(0, np.nan)\<close>, cell by cell.\<close>

definition replace_zero :: "float64 \<Rightarrow> float64" where
  "replace_zero v = (if v = Some 0 then None else v)"

definition dict_getitem :: "(string \<times> 'v) list \<Rightarrow> string \<Rightarrow> error + 'v" where
  "dict_getitem d k = (case map_of d k of None \<Rightarrow> Inl (KeyError k) | Some v \<Rightarrow> Inr v)"

definition getitem_col :: "dataframe option \<Rightarrow> string \<Rightarrow> error + series" where
  "getitem_col odf col =
     (case odf of
        None \<Rightarrow> Inl TypeError
      | Some df \<Rightarrow>
          if col \<in> set (columns df) then Inr (map (\<lambda>(q, v). (q, v col)) (rows df))
          else Inl (KeyError col))"

definition setitem :: "dataframe \<Rightarrow> string \<Rightarrow> (period \<Rightarrow> float64) \<Rightarrow> dataframe" where
  "setitem df col f =
     \<lparr>columns = (if col \<in> set (columns df) then columns df else columns df @ [col]),
      rows = map (\<lambda>(q, v). (q, v(col := f q))) (rows df)\<rparr>"

definition ratio_step :: "sources \<Rightarrow> dataframe \<Rightarrow> RatioDef \<Rightarrow> error + dataframe" where
  "ratio_step srcs result r =
     and_then (dict_getitem srcs (numerator_src r)) (\<lambda>nsrc.
     and_then (getitem_col nsrc (numerator_col r)) (\<lambda>num.
     and_then (dict_getitem srcs (denominator_src r)) (\<lambda>dsrc.
     and_then (getitem_col dsrc (denominator_col r)) (\<lambda>den.
       Inr (setitem result (name r)
              (\<lambda>q. fdiv (series_at num q) (replace_zero (series_at den q))))))))"

fun for_ratios :: "sources \<Rightarrow> RatioDef list \<Rightarrow> dataframe \<Rightarrow> error + dataframe" where
  "for_ratios srcs [] result = Inr result"
| "for_ratios srcs (r # rs) result = and_then (ratio_step srcs result r) (for_ratios srcs rs)"

definition compute_ratios :: "sources \<Rightarrow> error + dataframe" where
  "compute_ratios srcs =
     for_ratios srcs RATIOS \<lparr>columns = [], rows = map (\<lambda>q. (q, \<lambda>c. None)) EXPECTED_QTR_INDEX\<rparr>"

section \<open>Winsorization\<close>

text \<open>
  The panel is a long-format frame: one row per ticker and quarter, with the ticker, the
  quarter label and the cells of the float columns named in \<open>pcolumns\<close>.
\<close>

record panel_row =
  ticker :: string
  quarter :: string
  cells :: "string \<Rightarrow> float64"

record panel =
  pcolumns :: "string list"
  prows :: "panel_row list"

definition dropna :: "float64 list \<Rightarrow> real list" where
  "dropna s = List.map_filter (\<lambda>v. v) s"

text \<open>
  \<open>Series.quantile(q)\<close> with linear interpolation: NaN is skipped, the position
  \<open>q * (n - 1)\<close> in the sorted values is interpolated between its two neighbours, and a
  series without a number gives NaN.
\<close>

definition quantile :: "float64 list \<Rightarrow> real \<Rightarrow> float64" where
  "quantile s q =
     (let xs = sort (dropna s); n = length xs in
      if n = 0 then None
      else
        let h = q * real (n - 1); i = nat \<lfloor>h\<rfloor>; g = h - real i in
        if i + 1 < n then Some (xs ! i + g * (xs ! (i + 1) - xs ! i))
        else Some (xs ! (n - 1)))"

text \<open>
  \<open>Series.clip(lower, upper)\<close>: a NaN bound is ignored, two numeric bounds are put in
  order, NaN cells stay NaN, and every other cell is raised to the lower bound and then
  lowered to the upper bound.
\<close>

definition clip_value :: "real option \<Rightarrow> real option \<Rightarrow> real \<Rightarrow> real" where
  "clip_value lower upper x =
     (let y = (case lower of None \<Rightarrow> x | Some l \<Rightarrow> if l \<le> x then x else l)
      in case upper of None \<Rightarrow> y | Some u \<Rightarrow> if y \<le> u then y else u)"

definition clip :: "float64 list \<Rightarrow> float64 \<Rightarrow> float64 \<Rightarrow> float64 list" where
  "clip s lower upper =
     (let (lo, hi) = (case (lower, upper) of
                        (Some l, Some u) \<Rightarrow> (Some (min l u), Some (max l u))
                      | _ \<Rightarrow> (lower, upper))
      in map (map_option (clip_value lo hi)) s)"

definition clip_col :: "real \<Rightarrow> real \<Rightarrow> float64 list \<Rightarrow> float64 list" where
  "clip_col lo hi s = (let lower = quantile s lo; upper = quantile s hi in clip s lower upper)"

definition get_column :: "panel \<Rightarrow> string \<Rightarrow> float64 list" where
  "get_column p col = map (\<lambda>r. cells r col) (prows p)"

definition set_column :: "panel \<Rightarrow> string \<Rightarrow> float64 list \<Rightarrow> panel" where
  "set_column p col vs =
     p\<lparr>prows := map2 (\<lambda>r v. r\<lparr>cells := (cells r)(col := v)\<rparr>) (prows p) vs\<rparr>"

definition winsorize_col :: "panel \<Rightarrow> string \<Rightarrow> panel" where
  "winsorize_col p col =
     (if col \<in> set (pcolumns p)
      then set_column p col
             (clip_col (fst WINSORIZE_QUANTILES) (snd WINSORIZE_QUANTILES) (get_column p col))
      else p)"

definition winsorize_panel :: "panel \<Rightarrow> panel" where
  "winsorize_panel p = foldl winsorize_col p RATIO_NAMES"

section \<open>Panel assembly\<close>

text \<open>
  The loop over the tickers: the three sources are loaded (an exception of \<open>pd.read_csv\<close>
  leaves the loop), an incomplete ticker is skipped, and the ratios of a complete one are
  appended together with its ticker. An exception of \<open>_compute_ratios\<close> leaves the loop.
\<close>

definition load_sources :: "sort_values \<Rightarrow> filesystem \<Rightarrow> string \<Rightarrow> error + sources" where
  "load_sources sv fs t =
     and_then (load_source sv fs t ''income'') (\<lambda>income.
     and_then (load_source sv fs t ''balance'') (\<lambda>balance.
     and_then (load_source sv fs t ''cashflow'') (\<lambda>cashflow.
       Inr [(''income'', income), (''balance'', balance), (''cashflow'', cashflow)])))"

fun load_loop ::
  "sort_values \<Rightarrow> filesystem \<Rightarrow> string list \<Rightarrow> error + (string \<times> dataframe) list" where
  "load_loop sv fs [] = Inr []"
| "load_loop sv fs (t # ts) =
     and_then (load_sources sv fs t) (\<lambda>srcs.
       if \<not> is_complete srcs then load_loop sv fs ts
       else and_then (compute_ratios srcs) (\<lambda>ratios.
            and_then (load_loop sv fs ts) (\<lambda>all_ratios. Inr ((t, ratios) # all_ratios))))"

text \<open>
  \<open>pd.concat\<close> followed by \<open>reset_index\<close> and the conversion of the quarter to its label:
  the rows of the frames one after the other, with the union of their columns.
\<close>

definition concat_frames :: "(string \<times> dataframe) list \<Rightarrow> panel" where
  "concat_frames all_ratios =
     \<lparr>pcolumns = remdups (concat (map (\<lambda>(t, df). columns df) all_ratios)),
      prows = concat (map (\<lambda>(t, df).
                 map (\<lambda>(q, v). \<lparr>ticker = t, quarter = period_str q, cells = v\<rparr>) (rows df))
               all_ratios)\<rparr>"

definition select_columns :: "panel \<Rightarrow> string list \<Rightarrow> error + panel" where
  "select_columns p cols =
     (case [c \<leftarrow> cols. c \<notin> set (pcolumns p)] of
        [] \<Rightarrow> Inr (p\<lparr>pcolumns := cols\<rparr>)
      | c # _ \<Rightarrow> Inl (KeyError c))"

definition build_ratio_panel ::
  "sort_values \<Rightarrow> filesystem \<Rightarrow> profile list \<Rightarrow> error + panel" where
  "build_ratio_panel sv fs profiles =
     (let tickers = filter_sectors (get_ticker_universe fs) (load_sector_map profiles) in
      and_then (load_loop sv fs tickers) (\<lambda>all_ratios.
        if all_ratios = []
        then Inl (RuntimeError ''Kein einziger Ticker hat den Vollstaendigkeitsfilter bestanden!'')
        else select_columns (winsorize_panel (concat_frames all_ratios)) RATIO_NAMES))"

section \<open>AR(1) estimation (ar\_model.py)\<close>

text \<open>
  The least-squares fit is the library's (\<open>sm.OLS(y, sm.add_constant(x)).fit()\<close>) and is a
  parameter of the model: it either raises (\<open>None\<close>) or returns the fitted model, of which
  the code reads the parameter vector, the standard errors, the p-values and R squared.
\<close>

record ols_results =
  params :: "float64 list"
  bse :: "float64 list"
  pvalues :: "float64 list"
  rsquared :: float64

type_synonym ols = "real list \<Rightarrow> real list \<Rightarrow> ols_results option"

record ar1_estimate =
  phi1 :: float64
  phi1_se :: float64
  phi1_pval :: float64
  c :: float64
  r_squared :: float64
  sigma_diff :: real
  half_life :: float64
  n_obs :: nat

text \<open>\<open>Series.shift(k)\<close> and \<open>Series.diff(k)\<close> by position.\<close>

definition shift :: "nat \<Rightarrow> float64 list \<Rightarrow> float64 list" where
  "shift k s = replicate (min k (length s)) None @ take (length s - k) s"

definition fsub :: "float64 \<Rightarrow> float64 \<Rightarrow> float64" where
  "fsub a b = (case (a, b) of (Some x, Some y) \<Rightarrow> Some (x - y) | _ \<Rightarrow> None)"

definition diff :: "nat \<Rightarrow> float64 list \<Rightarrow> float64 list" where
  "diff k s = map2 fsub s (shift k s)"

text \<open>\<open>Series.std(ddof=1)\<close> of a series without NaN.\<close>

definition mean :: "real list \<Rightarrow> real" where
  "mean xs = sum_list xs / real (length xs)"

definition std :: "real list \<Rightarrow> real" where
  "std xs = sqrt (sum_list (map (\<lambda>x. (x - mean xs)\<^sup>2) xs) / real (length xs - 1))"

definition getitem :: "'a list \<Rightarrow> nat \<Rightarrow> error + 'a" where
  "getitem xs i = (if i < length xs then Inr (xs ! i) else Inl IndexError)"

definition fit_ar1_on_diff :: "ols \<Rightarrow> float64 list \<Rightarrow> error + ar1_estimate option" where
  "fit_ar1_on_diff fit s =
     (let d = dropna (diff DIFF_ORDER s) in
      if length d < AR_ORDER + 3 then Inr None
      else
        let sigma = std d in
        if sigma < 1 / 10 ^ 15 then Inr None
        else
          let y0 = drop AR_ORDER (map Some d);
              x0 = drop AR_ORDER (shift AR_ORDER (map Some d));
              masked = [(a, b) \<leftarrow> zip y0 x0. a \<noteq> None \<and> b \<noteq> None];
              y = dropna (map fst masked);
              x = dropna (map snd masked);
              n = length y
          in
          if n < AR_ORDER + 3 then Inr None
          else
            case fit y x of
              None \<Rightarrow> Inr None
            | Some model \<Rightarrow>
                and_then (getitem (params model) 1) (\<lambda>p1.
                and_then (getitem (bse model) 1) (\<lambda>se1.
                and_then (getitem (pvalues model) 1) (\<lambda>pv1.
                and_then (getitem (params model) 0) (\<lambda>p0.
                  let hl = (case p1 of
                              None \<Rightarrow> None
                            | Some p \<Rightarrow> if 0 < p \<and> p < 1 then Some (ln (1 / 2) / ln \<bar>p\<bar>)
                                        else None)
                  in Inr (Some \<lparr>phi1 = p1, phi1_se = se1, phi1_pval = pv1, c = p0,
                                 r_squared = rsquared model, sigma_diff = sigma,
                                 half_life = hl, n_obs = n\<rparr>))))))"

text \<open>
  \<open>estimate_ar_features\<close>: the sorted tickers, for each the rows of the ticker sorted by
  quarter, for each ratio the column of that ratio. A pair is skipped (\<open>None\<close>) on too few
  numbers or when the fit returns nothing. After the loop the frame of the results is
  built and its columns \<open>ticker\<close> and \<open>ratio\<close> are read for the log line; a frame built
  from no result has no column.
\<close>

record feature =
  f_ticker :: string
  f_ratio :: string
  f_fit :: ar1_estimate

definition ticker_series :: "panel \<Rightarrow> string \<Rightarrow> string \<Rightarrow> float64 list" where
  "ticker_series p t ratio =
     map (\<lambda>r. cells r ratio) (sort_key quarter [r \<leftarrow> prows p. ticker r = t])"

definition estimate_pair :: "ols \<Rightarrow> panel \<Rightarrow> string \<Rightarrow> string \<Rightarrow> error + ar1_estimate option" where
  "estimate_pair fit p t ratio =
     (if ratio \<notin> set (pcolumns p) then Inl (KeyError ratio)
      else
        let s = ticker_series p t ratio; n_valid = length (dropna s) in
        if n_valid < AR_ORDER + DIFF_ORDER + 3 then Inr None
        else fit_ar1_on_diff fit s)"

fun estimate_loop :: "ols \<Rightarrow> panel \<Rightarrow> (string \<times> string) list \<Rightarrow> error + feature list" where
  "estimate_loop fit p [] = Inr []"
| "estimate_loop fit p ((t, ratio) # rest) =
     and_then (estimate_pair fit p t ratio) (\<lambda>res.
     and_then (estimate_loop fit p rest) (\<lambda>results.
       Inr (case res of
              None \<Rightarrow> results
            | Some est \<Rightarrow> \<lparr>f_ticker = t, f_ratio = ratio, f_fit = est\<rparr> # results)))"

definition estimate_ar_features :: "ols \<Rightarrow> panel \<Rightarrow> error + feature list" where
  "estimate_ar_features fit p =
     (let tickers = sort (remdups (map ticker (prows p))) in
      and_then (estimate_loop fit p (List.product tickers RATIO_NAMES)) (\<lambda>results.
        if results = [] then Inl (KeyError ''ticker'') else Inr results))"

text \<open>
  The two series that \<open>_compute_ratios\<close> reads for a ratio: the numerator column of the
  numerator source and the denominator column of the denominator source, when both exist.
\<close>

definition ratio_inputs :: "sources \<Rightarrow> RatioDef \<Rightarrow> series \<Rightarrow> series \<Rightarrow> bool" where
  "ratio_inputs srcs r num den \<longleftrightarrow>
     (\<exists>nsrc dsrc. dict_getitem srcs (numerator_src r) = Inr nsrc
        \<and> getitem_col nsrc (numerator_col r) = Inr num
        \<and> dict_getitem srcs (denominator_src r) = Inr dsrc
        \<and> getitem_col dsrc (denominator_col r) = Inr den)"

text \<open>
  Names for the intermediate values of \<open>_fit_ar1_on_diff\<close>: the differenced series without
  NaN, and the aligned response \<open>y\<close> and regressor \<open>x\<close>.
\<close>

abbreviation differenced :: "float64 list \<Rightarrow> real list" where
  "differenced s \<equiv> dropna (diff DIFF_ORDER s)"

abbreviation aligned :: "real list \<Rightarrow> (float64 \<times> float64) list" where
  "aligned d \<equiv> [(a, b) \<leftarrow> zip (drop AR_ORDER (map Some d))
                    (drop AR_ORDER (shift AR_ORDER (map Some d))). a \<noteq> None \<and> b \<noteq> None]"

abbreviation response :: "real list \<Rightarrow> real list" where
  "response d \<equiv> dropna (map fst (aligned d))"

abbreviation regressor :: "real list \<Rightarrow> real list" where
  "regressor d \<equiv> dropna (map snd (aligned d))"

text \<open>
  The linear interpolation of a percentile at the position \<open>h\<close> of a sorted list: between
  the value at \<open>\<lfloor>h\<rfloor>\<close> and its right neighbour (the last value when there is none).
\<close>

abbreviation interpolate :: "real list \<Rightarrow> real \<Rightarrow> real" where
  "interpolate xs h \<equiv>
     xs ! nat \<lfloor>h\<rfloor> + (h - real (nat \<lfloor>h\<rfloor>)) * (xs ! min (nat \<lfloor>h\<rfloor> + 1) (length xs - 1) - xs ! nat \<lfloor>h\<rfloor>)"

text \<open>The rows that \<open>_load_source\<close> keeps of a raw frame, with their quarter and date.\<close>

abbreviation kept_rows :: "sort_values \<Rightarrow> raw_frame \<Rightarrow> dated_row list" where
  "kept_rows sv df \<equiv>
     sort_key fst (drop_duplicates_last fst (sv (map (\<lambda>(d, r). (to_period d, d, r))
       [(d, r) \<leftarrow> List.map_filter (\<lambda>r. map_option (\<lambda>d. (d, r)) (rdate r)) (rrows df).
          YEAR_START \<le> year d \<and> year d \<le> YEAR_END])))"

text \<open>
  A statement file that covers every canonical quarter: it parses, has a date column and,
  for each quarter of the years 2000 to 2024, a record whose date lies in that quarter.
\<close>

abbreviation covers_all_quarters :: "filesystem \<Rightarrow> string \<Rightarrow> string \<Rightarrow> bool" where
  "covers_all_quarters fs src t \<equiv>
     (\<exists>df. map_of (fs src) t = Some (Csv df) \<and> ''date'' \<in> set (rcolumns df)
        \<and> (\<forall>y q. 2000 \<le> y \<and> y \<le> 2024 \<and> 1 \<le> q \<and> q \<le> 4 \<longrightarrow>
               (\<exists>r \<in> set (rrows df). \<exists>m dd. rdate r = Some (y, m, dd) \<and> (m - 1) div 3 + 1 = q)))"

text \<open>
  A surviving ticker: its sector is not an excluded one and each of its three statement
  files covers every canonical quarter.
\<close>

abbreviation survives :: "filesystem \<Rightarrow> profile list \<Rightarrow> string \<Rightarrow> bool" where
  "survives fs profiles t \<equiv>
     (\<forall>s. load_sector_map profiles t = Some s \<longrightarrow> s \<notin> EXCLUDED_SECTORS)
     \<and> covers_all_quarters fs ''income'' t
     \<and> covers_all_quarters fs ''balance'' t
     \<and> covers_all_quarters fs ''cashflow'' t"

section \<open>Properties of the sector filter\<close>

lemma empty_label_not_excluded: "'''' \<notin> EXCLUDED_SECTORS"
  by (simp add: EXCLUDED_SECTORS_def)

text \<open>
  Claim C10. A ticker without an entry in the sector map is always retained by
  \<open>filter_sectors\<close>; the tickers removed are exactly those whose mapped sector is one of the
  excluded labels; the retained tickers keep their relative order (and multiplicity).
\<close>

theorem filter_sectors_keeps_unknown:
  "filter_sectors tickers sector_map =
     filter (\<lambda>t. \<not> (\<exists>s. sector_map t = Some s \<and> s \<in> EXCLUDED_SECTORS)) tickers
   \<and> subseq (filter_sectors tickers sector_map) tickers
   \<and> (\<forall>t. sector_map t = None \<and> t \<in> set tickers
          \<longrightarrow> t \<in> set (filter_sectors tickers sector_map))"
proof -
  have pred: "dict_get sector_map t '''' \<notin> EXCLUDED_SECTORS
      \<longleftrightarrow> \<not> (\<exists>s. sector_map t = Some s \<and> s \<in> EXCLUDED_SECTORS)" for t
    by (cases "sector_map t") (simp_all add: dict_get_def empty_label_not_excluded)
  have eq: "filter_sectors tickers sector_map =
     filter (\<lambda>t. \<not> (\<exists>s. sector_map t = Some s \<and> s \<in> EXCLUDED_SECTORS)) tickers"
    unfolding filter_sectors_def using pred by simp
  have sub: "subseq (filter_sectors tickers sector_map) tickers"
    unfolding filter_sectors_def by simp
  have unk: "\<forall>t. sector_map t = None \<and> t \<in> set tickers
          \<longrightarrow> t \<in> set (filter_sectors tickers sector_map)"
    unfolding eq by simp
  from eq sub unk show ?thesis by blast
qed

theorem filter_sectors_keeps_unknown_witness:
  "filter_sectors [''ZZZ'', ''BNK'', ''AAA''] [''BNK'' \<mapsto> ''Banks'', ''AAA'' \<mapsto> ''Technology'']
     = [''ZZZ'', ''AAA'']"
proof -
  have "filter_sectors [''ZZZ'', ''BNK'', ''AAA''] [''BNK'' \<mapsto> ''Banks'', ''AAA'' \<mapsto> ''Technology'']
     = filter (\<lambda>t. \<not> (\<exists>s. [''BNK'' \<mapsto> ''Banks'', ''AAA'' \<mapsto> ''Technology''] t = Some s
                        \<and> s \<in> EXCLUDED_SECTORS)) [''ZZZ'', ''BNK'', ''AAA'']"
    using filter_sectors_keeps_unknown
      [of "[''ZZZ'', ''BNK'', ''AAA'']" "[''BNK'' \<mapsto> ''Banks'', ''AAA'' \<mapsto> ''Technology'']"]
    by blast
  then show ?thesis by (simp add: EXCLUDED_SECTORS_def)
qed

section \<open>Properties of the completeness filter\<close>

lemma period_range_length:
  "length (period_range start stop) = Suc (period_ordinal stop) - period_ordinal start"
  unfolding period_range_def length_map length_upt by (rule refl)

lemma period_range_set:
  "set (period_range start stop) =
     period_of_ordinal ` {period_ordinal start ..< Suc (period_ordinal stop)}"
  unfolding period_range_def set_map set_upt by (rule refl)

lemma inj_period_of_ordinal: "inj period_of_ordinal"
proof (rule injI)
  fix a b assume "period_of_ordinal a = period_of_ordinal b"
  then have "a div 4 = b div 4" "a mod 4 = b mod 4"
    by (simp_all add: period_of_ordinal_def)
  then show "a = b" by (metis div_mult_mod_eq)
qed

lemma period_range_distinct: "distinct (period_range start stop)"
  unfolding period_range_def using inj_period_of_ordinal
  by (simp add: distinct_map inj_on_def)

lemma expected_bounds:
  "period_ordinal (YEAR_START, 1) = 8000" "Suc (period_ordinal (YEAR_END, 4)) = 8100"
  by (simp_all add: period_ordinal_def YEAR_START_def YEAR_END_def)

lemma expected_length: "length EXPECTED_QTR_INDEX = 100"
  unfolding EXPECTED_QTR_INDEX_def build_expected_quarters_def period_range_length expected_bounds
  by simp

lemma expected_quarters_const: "EXPECTED_QUARTERS = length EXPECTED_QTR_INDEX"
  unfolding expected_length by (simp add: EXPECTED_QUARTERS_def YEAR_START_def YEAR_END_def)

lemma expected_distinct: "distinct EXPECTED_QTR_INDEX"
  unfolding EXPECTED_QTR_INDEX_def build_expected_quarters_def by (rule period_range_distinct)

lemma expected_set:
  "set EXPECTED_QTR_INDEX = {(y, q). 2000 \<le> y \<and> y \<le> 2024 \<and> 1 \<le> q \<and> q \<le> 4}"
proof (rule set_eqI)
  fix p :: period
  obtain y q where p: "p = (y, q)" by (cases p)
  have "p \<in> set EXPECTED_QTR_INDEX \<longleftrightarrow> (\<exists>n. 8000 \<le> n \<and> n < 8100 \<and> y = n div 4 \<and> q = n mod 4 + 1)"
    unfolding p EXPECTED_QTR_INDEX_def build_expected_quarters_def period_range_set expected_bounds
    by (auto simp add: period_of_ordinal_def image_iff)
  also have "\<dots> \<longleftrightarrow> 2000 \<le> y \<and> y \<le> 2024 \<and> 1 \<le> q \<and> q \<le> 4"
  proof
    assume "\<exists>n. 8000 \<le> n \<and> n < 8100 \<and> y = n div 4 \<and> q = n mod 4 + 1"
    then show "2000 \<le> y \<and> y \<le> 2024 \<and> 1 \<le> q \<and> q \<le> 4" by auto
  next
    assume a: "2000 \<le> y \<and> y \<le> 2024 \<and> 1 \<le> q \<and> q \<le> 4"
    then obtain k where k: "q = Suc k" "k < 4" by (cases q) auto
    have m: "(4 * y + k) mod 4 = k" and d: "(4 * y + k) div 4 = y" using k by simp_all
    have "8000 \<le> 4 * y + k \<and> 4 * y + k < 8100 \<and> y = (4 * y + k) div 4
            \<and> q = (4 * y + k) mod 4 + 1"
      unfolding m d using a k by simp
    then show "\<exists>n. 8000 \<le> n \<and> n < 8100 \<and> y = n div 4 \<and> q = n mod 4 + 1" by blast
  qed
  finally show "p \<in> set EXPECTED_QTR_INDEX \<longleftrightarrow> p \<in> {(y, q). 2000 \<le> y \<and> y \<le> 2024 \<and> 1 \<le> q \<and> q \<le> 4}"
    unfolding p by simp
qed

lemma is_complete_iff:
  "is_complete dfs \<longleftrightarrow>
     (\<forall>(src_name, d) \<in> set dfs. \<exists>df. d = Some df \<and> set EXPECTED_QTR_INDEX \<subseteq> fst ` set (rows df))"
  by (induction dfs rule: is_complete.induct) (auto simp add: list_all_iff)

lemma is_complete_present:
  "is_complete [(n1, a), (n2, b), (n3, d)] \<longleftrightarrow>
     (\<exists>fa. a = Some fa \<and> set EXPECTED_QTR_INDEX \<subseteq> fst ` set (rows fa))
   \<and> (\<exists>fb. b = Some fb \<and> set EXPECTED_QTR_INDEX \<subseteq> fst ` set (rows fb))
   \<and> (\<exists>fd. d = Some fd \<and> set EXPECTED_QTR_INDEX \<subseteq> fst ` set (rows fd))"
  unfolding is_complete_iff by simp

text \<open>
  Claim C2. Applied to the three loaded sources of one company, \<open>is_complete\<close> is true
  exactly when all three are present and each of the 100 canonical quarters is an index
  label of each of the three frames.
\<close>

theorem is_complete_three_sources:
  "(is_complete [(''income'', a), (''balance'', b), (''cashflow'', d)] \<longleftrightarrow>
     (\<exists>fa fb fd. a = Some fa \<and> b = Some fb \<and> d = Some fd
        \<and> (\<forall>q \<in> set EXPECTED_QTR_INDEX.
              q \<in> fst ` set (rows fa) \<and> q \<in> fst ` set (rows fb) \<and> q \<in> fst ` set (rows fd))))
   \<and> length EXPECTED_QTR_INDEX = 100"
proof (rule conjI)
  show "length EXPECTED_QTR_INDEX = 100" by (rule expected_length)
  show "is_complete [(''income'', a), (''balance'', b), (''cashflow'', d)] \<longleftrightarrow>
     (\<exists>fa fb fd. a = Some fa \<and> b = Some fb \<and> d = Some fd
        \<and> (\<forall>q \<in> set EXPECTED_QTR_INDEX.
              q \<in> fst ` set (rows fa) \<and> q \<in> fst ` set (rows fb) \<and> q \<in> fst ` set (rows fd)))"
    unfolding is_complete_present subset_iff by blast
qed

theorem is_complete_three_sources_witness:
  "is_complete
     [(''income'', Some \<lparr>columns = [], rows = map (\<lambda>q. (q, \<lambda>c. None)) EXPECTED_QTR_INDEX\<rparr>),
      (''balance'', Some \<lparr>columns = [], rows = map (\<lambda>q. (q, \<lambda>c. None)) EXPECTED_QTR_INDEX\<rparr>),
      (''cashflow'', Some \<lparr>columns = [], rows = map (\<lambda>q. (q, \<lambda>c. None)) EXPECTED_QTR_INDEX\<rparr>)]
   \<and> \<not> is_complete
     [(''income'', Some \<lparr>columns = [], rows = map (\<lambda>q. (q, \<lambda>c. None)) EXPECTED_QTR_INDEX\<rparr>),
      (''balance'', None),
      (''cashflow'', Some \<lparr>columns = [], rows = map (\<lambda>q. (q, \<lambda>c. None)) EXPECTED_QTR_INDEX\<rparr>)]"
proof -
  define f where "f = \<lparr>columns = [], rows = map (\<lambda>q. (q, \<lambda>c. None :: float64)) EXPECTED_QTR_INDEX\<rparr>"
  have full: "\<forall>q \<in> set EXPECTED_QTR_INDEX. q \<in> fst ` set (rows f) \<and> q \<in> fst ` set (rows f)
        \<and> q \<in> fst ` set (rows f)"
    by (simp add: f_def image_iff)
  have one: "is_complete [(''income'', Some f), (''balance'', Some f), (''cashflow'', Some f)]"
    using conjunct1 [OF is_complete_three_sources [of "Some f" "Some f" "Some f"]] full by blast
  have two: "\<not> is_complete [(''income'', Some f), (''balance'', None), (''cashflow'', Some f)]"
    using conjunct1 [OF is_complete_three_sources [of "Some f" None "Some f"]] by blast
  from one two show ?thesis unfolding f_def by (rule conjI)
qed

section \<open>Properties of the ratio computation\<close>

lemma and_then_Inr: "and_then m f = Inr y \<longleftrightarrow> (\<exists>x. m = Inr x \<and> f x = Inr y)"
  by (cases m) simp_all

lemma and_then_Inl: "and_then m f = Inl e \<longleftrightarrow> m = Inl e \<or> (\<exists>x. m = Inr x \<and> f x = Inl e)"
  by (cases m) simp_all

lemma ratio_step_Inr:
  "ratio_step srcs df r = Inr df' \<longleftrightarrow>
     (\<exists>num den. ratio_inputs srcs r num den
        \<and> df' = setitem df (name r)
                  (\<lambda>q. fdiv (series_at num q) (replace_zero (series_at den q))))"
  unfolding ratio_step_def ratio_inputs_def and_then_Inr by auto

lemma ratio_inputs_unique:
  "ratio_inputs srcs r num den \<Longrightarrow> ratio_inputs srcs r num' den' \<Longrightarrow> num' = num \<and> den' = den"
  unfolding ratio_inputs_def by auto

lemma setitem_index: "map fst (rows (setitem df col f)) = map fst (rows df)"
  by (simp add: setitem_def case_prod_unfold comp_def)

lemma setitem_other:
  "col' \<noteq> col \<Longrightarrow>
   map (\<lambda>(q, v). (q, v col')) (rows (setitem df col f)) = map (\<lambda>(q, v). (q, v col')) (rows df)"
  by (simp add: setitem_def case_prod_unfold comp_def)

lemma setitem_same:
  "map (\<lambda>(q, v). (q, v col)) (rows (setitem df col f)) = map (\<lambda>(q, v). (q, f q)) (rows df)"
  by (simp add: setitem_def case_prod_unfold comp_def)

lemma for_ratios_index:
  "for_ratios srcs rs df = Inr res \<Longrightarrow> map fst (rows res) = map fst (rows df)"
proof (induction rs arbitrary: df)
  case Nil
  then show ?case by simp
next
  case (Cons r rs)
  then obtain df' where s: "ratio_step srcs df r = Inr df'" and t: "for_ratios srcs rs df' = Inr res"
    by (auto simp add: and_then_Inr)
  from s have "map fst (rows df') = map fst (rows df)"
    by (auto simp add: ratio_step_Inr setitem_index)
  with Cons.IH [OF t] show ?case by simp
qed

lemma for_ratios_other:
  "for_ratios srcs rs df = Inr res \<Longrightarrow> col \<notin> name ` set rs \<Longrightarrow>
   map (\<lambda>(q, v). (q, v col)) (rows res) = map (\<lambda>(q, v). (q, v col)) (rows df)"
proof (induction rs arbitrary: df)
  case Nil
  then show ?case by simp
next
  case (Cons r rs)
  then obtain df' where s: "ratio_step srcs df r = Inr df'" and t: "for_ratios srcs rs df' = Inr res"
    by (auto simp add: and_then_Inr)
  from Cons.prems have ne: "col \<noteq> name r" and rest: "col \<notin> name ` set rs" by auto
  from s ne have "map (\<lambda>(q, v). (q, v col)) (rows df') = map (\<lambda>(q, v). (q, v col)) (rows df)"
    by (auto simp add: ratio_step_Inr setitem_other)
  with Cons.IH [OF t rest] show ?case by simp
qed

lemma for_ratios_column:
  "for_ratios srcs rs df = Inr res \<Longrightarrow> distinct (map name rs) \<Longrightarrow> r \<in> set rs \<Longrightarrow>
   ratio_inputs srcs r num den \<Longrightarrow>
   map (\<lambda>(q, v). (q, v (name r))) (rows res) =
   map (\<lambda>(q, v). (q, fdiv (series_at num q) (replace_zero (series_at den q)))) (rows df)"
proof (induction rs arbitrary: df)
  case Nil
  then show ?case by simp
next
  case (Cons a rs)
  then obtain df' where s: "ratio_step srcs df a = Inr df'" and t: "for_ratios srcs rs df' = Inr res"
    by (auto simp add: and_then_Inr)
  from Cons.prems have d: "distinct (map name rs)" and na: "name a \<notin> name ` set rs" by auto
  show ?case
  proof (cases "r = a")
    case True
    from s obtain num' den' where i: "ratio_inputs srcs a num' den'"
      and e: "df' = setitem df (name a)
                  (\<lambda>q. fdiv (series_at num' q) (replace_zero (series_at den' q)))"
      by (auto simp add: ratio_step_Inr)
    from ratio_inputs_unique [OF Cons.prems(4) [unfolded True] i] have u: "num' = num" "den' = den"
      by simp_all
    have "map (\<lambda>(q, v). (q, v (name a))) (rows res) = map (\<lambda>(q, v). (q, v (name a))) (rows df')"
      by (rule for_ratios_other [OF t na])
    then show ?thesis unfolding True e u setitem_same .
  next
    case False
    with Cons.prems have m: "r \<in> set rs" by simp
    from s have ix: "map fst (rows df') = map fst (rows df)"
      by (auto simp add: ratio_step_Inr setitem_index)
    have rew: "map (\<lambda>(q, v). (q, g q)) xs = map (\<lambda>q. (q, g q)) (map fst xs)"
      for g :: "period \<Rightarrow> float64" and xs :: "(period \<times> (string \<Rightarrow> float64)) list"
      by (simp add: case_prod_unfold comp_def)
    have "map (\<lambda>(q, v). (q, fdiv (series_at num q) (replace_zero (series_at den q)))) (rows df')
        = map (\<lambda>(q, v). (q, fdiv (series_at num q) (replace_zero (series_at den q)))) (rows df)"
      unfolding rew ix by (rule refl)
    with Cons.IH [OF t d m Cons.prems(4)] show ?thesis by simp
  qed
qed

lemma for_ratios_ok:
  "\<forall>r \<in> set rs. \<exists>num den. ratio_inputs srcs r num den \<Longrightarrow> \<exists>res. for_ratios srcs rs df = Inr res"
proof (induction rs arbitrary: df)
  case Nil
  then show ?case by simp
next
  case (Cons a rs)
  then obtain num den where "ratio_inputs srcs a num den" by auto
  then obtain df' where s: "ratio_step srcs df a = Inr df'"
    using ratio_step_Inr by blast
  from Cons.IH [of df'] Cons.prems obtain res where "for_ratios srcs rs df' = Inr res" by auto
  with s show ?case by simp
qed

lemma for_ratios_needs_inputs:
  "for_ratios srcs rs df = Inr res \<Longrightarrow> r \<in> set rs \<Longrightarrow> \<exists>num den. ratio_inputs srcs r num den"
proof (induction rs arbitrary: df)
  case Nil
  then show ?case by simp
next
  case (Cons a rs)
  then obtain df' where s: "ratio_step srcs df a = Inr df'" and t: "for_ratios srcs rs df' = Inr res"
    by (auto simp add: and_then_Inr)
  show ?case
  proof (cases "r = a")
    case True
    with s show ?thesis using ratio_step_Inr by blast
  next
    case False
    with Cons.prems have "r \<in> set rs" by simp
    from Cons.IH [OF t this] show ?thesis .
  qed
qed

lemma for_ratios_columns:
  "for_ratios srcs rs df = Inr res \<Longrightarrow> distinct (map name rs) \<Longrightarrow>
   name ` set rs \<inter> set (columns df) = {} \<Longrightarrow> columns res = columns df @ map name rs"
proof (induction rs arbitrary: df)
  case Nil
  then show ?case by simp
next
  case (Cons a rs)
  then obtain df' where s: "ratio_step srcs df a = Inr df'" and t: "for_ratios srcs rs df' = Inr res"
    by (auto simp add: and_then_Inr)
  from s Cons.prems have c: "columns df' = columns df @ [name a]"
    by (auto simp add: ratio_step_Inr setitem_def)
  from Cons.prems have "distinct (map name rs)" "name ` set rs \<inter> set (columns df') = {}"
    unfolding c by auto
  from Cons.IH [OF t this] show ?case unfolding c by simp
qed

lemma ratio_names_distinct: "distinct (map name RATIOS)"
  by (simp add: RATIOS_def mk_ratio_def)

lemma fdiv_replace_zero:
  "fdiv a (replace_zero b) =
     (case (a, b) of (Some x, Some y) \<Rightarrow> if y = 0 then None else Some (x / y) | _ \<Rightarrow> None)"
  by (cases a; cases b) (simp_all add: fdiv_def replace_zero_def)

lemma compute_ratios_index:
  "compute_ratios srcs = Inr result \<Longrightarrow> map fst (rows result) = EXPECTED_QTR_INDEX"
  unfolding compute_ratios_def by (drule for_ratios_index) (simp add: comp_def)

lemma compute_ratios_columns:
  "compute_ratios srcs = Inr result \<Longrightarrow> columns result = RATIO_NAMES"
  unfolding compute_ratios_def RATIO_NAMES_def
  by (drule for_ratios_columns [OF _ ratio_names_distinct]) simp_all

lemma compute_ratios_cells:
  assumes "compute_ratios srcs = Inr result" "r \<in> set RATIOS" "ratio_inputs srcs r num den"
    "(q, v) \<in> set (rows result)"
  shows "v (name r) = fdiv (series_at num q) (replace_zero (series_at den q))"
proof -
  have "map (\<lambda>(q, v). (q, v (name r))) (rows result) =
        map (\<lambda>q. (q, fdiv (series_at num q) (replace_zero (series_at den q)))) EXPECTED_QTR_INDEX"
    using for_ratios_column [OF assms(1) [unfolded compute_ratios_def] ratio_names_distinct assms(2,3)]
    by (simp add: comp_def)
  moreover have "(q, v (name r)) \<in> set (map (\<lambda>(q, v). (q, v (name r))) (rows result))"
    using assms(4) by force
  ultimately show ?thesis by auto
qed

lemma series_at_column:
  "series_at (map (\<lambda>(q, v). (q, v col)) rs) q = (case map_of rs q of None \<Rightarrow> None | Some v \<Rightarrow> v col)"
  by (induction rs) (auto simp add: series_at_def)

lemma ratio_inputs_frames:
  assumes "map_of srcs (numerator_src r) = Some (Some nsrc)" "numerator_col r \<in> set (columns nsrc)"
    "map_of srcs (denominator_src r) = Some (Some dsrc)" "denominator_col r \<in> set (columns dsrc)"
  shows "ratio_inputs srcs r (map (\<lambda>(q, v). (q, v (numerator_col r))) (rows nsrc))
           (map (\<lambda>(q, v). (q, v (denominator_col r))) (rows dsrc))"
  using assms by (simp add: ratio_inputs_def dict_getitem_def getitem_col_def)

lemma ratio_inputs_columns:
  assumes "ratio_inputs srcs r num den"
    "map_of srcs (numerator_src r) = Some (Some nsrc)" "map_of srcs (denominator_src r) = Some (Some dsrc)"
  shows "num = map (\<lambda>(q, v). (q, v (numerator_col r))) (rows nsrc)"
    and "den = map (\<lambda>(q, v). (q, v (denominator_col r))) (rows dsrc)"
  using assms by (auto simp add: ratio_inputs_def dict_getitem_def getitem_col_def split: if_splits)

text \<open>
  Claim C4, as amended. When each source has the columns that the seven ratios read,
  \<open>_compute_ratios\<close> raises nothing and returns a frame over the 100 canonical quarters. For
  every ratio and every quarter, with the numerator and the denominator read in the rows
  of their sources labelled with that quarter: a denominator of exactly zero gives a
  missing ratio; a numerator and a non-zero denominator give their quotient (taken
  exactly: the rounding and the overflow of the machine division are not modelled); a
  missing numerator or denominator gives a missing ratio.
\<close>

theorem compute_ratios_zero_denominator:
  assumes "\<forall>r \<in> set RATIOS. \<exists>nsrc dsrc.
      map_of srcs (numerator_src r) = Some (Some nsrc) \<and> numerator_col r \<in> set (columns nsrc)
    \<and> map_of srcs (denominator_src r) = Some (Some dsrc) \<and> denominator_col r \<in> set (columns dsrc)"
  shows "\<exists>result. compute_ratios srcs = Inr result
     \<and> map fst (rows result) = EXPECTED_QTR_INDEX \<and> length (rows result) = 100
     \<and> (\<forall>r \<in> set RATIOS. \<forall>nsrc dsrc q vn vd v.
          map_of srcs (numerator_src r) = Some (Some nsrc)
        \<and> map_of srcs (denominator_src r) = Some (Some dsrc)
        \<and> map_of (rows nsrc) q = Some vn \<and> map_of (rows dsrc) q = Some vd
        \<and> (q, v) \<in> set (rows result) \<longrightarrow>
            (vd (denominator_col r) = Some 0 \<longrightarrow> v (name r) = None)
          \<and> (\<forall>n d. vn (numerator_col r) = Some n \<and> vd (denominator_col r) = Some d \<and> d \<noteq> 0
                 \<longrightarrow> v (name r) = Some (n / d))
          \<and> (vn (numerator_col r) = None \<or> vd (denominator_col r) = None
                 \<longrightarrow> v (name r) = None))"
proof -
  have inputs: "\<forall>r \<in> set RATIOS. \<exists>num den. ratio_inputs srcs r num den"
    using assms ratio_inputs_frames by blast
  from for_ratios_ok [OF inputs] obtain result where res: "compute_ratios srcs = Inr result"
    unfolding compute_ratios_def by blast
  have cellfact: "(vd (denominator_col r) = Some 0 \<longrightarrow> v (name r) = None)
          \<and> (\<forall>n d. vn (numerator_col r) = Some n \<and> vd (denominator_col r) = Some d \<and> d \<noteq> 0
                 \<longrightarrow> v (name r) = Some (n / d))
          \<and> (vn (numerator_col r) = None \<or> vd (denominator_col r) = None
                 \<longrightarrow> v (name r) = None)"
    if r: "r \<in> set RATIOS"
      and n: "map_of srcs (numerator_src r) = Some (Some nsrc)"
      and d: "map_of srcs (denominator_src r) = Some (Some dsrc)"
      and vn: "map_of (rows nsrc) q = Some vn" and vd: "map_of (rows dsrc) q = Some vd"
      and v: "(q, v) \<in> set (rows result)"
    for r nsrc dsrc q vn vd v
  proof -
    from inputs r obtain num den where i: "ratio_inputs srcs r num den" by blast
    note c = ratio_inputs_columns [OF i n d]
    have "v (name r) = fdiv (vn (numerator_col r)) (replace_zero (vd (denominator_col r)))"
      unfolding compute_ratios_cells [OF res r i v] c series_at_column vn vd by simp
    then show ?thesis unfolding fdiv_replace_zero by (auto split: option.splits)
  qed
  have len: "length (rows result) = 100"
    using compute_ratios_index [OF res] expected_length by (metis length_map)
  from res compute_ratios_index [OF res] len cellfact show ?thesis by blast
qed

lemma map_of_tabulate: "q \<in> set xs \<Longrightarrow> map_of (map (\<lambda>q. (q, g q)) xs) q = Some (g q)"
  by (induction xs) auto

lemma first_quarter_expected: "(2000, 1) \<in> set EXPECTED_QTR_INDEX"
  unfolding expected_set by simp

theorem compute_ratios_zero_denominator_witness:
  "\<exists>result v.
     compute_ratios
       [(''income'', Some \<lparr>columns = [''netIncome'', ''ebit'', ''totalRevenue''],
            rows = map (\<lambda>q. (q, \<lambda>c. if c = ''totalRevenue'' then Some 0 else Some 6))
                     EXPECTED_QTR_INDEX\<rparr>),
        (''balance'', Some \<lparr>columns = [''totalAssets'', ''totalStockholderEquity'',
              ''totalCurrentAssets'', ''totalCurrentLiabilities'', ''shortLongTermDebtTotal''],
            rows = map (\<lambda>q. (q, \<lambda>c. Some 3)) EXPECTED_QTR_INDEX\<rparr>),
        (''cashflow'', Some \<lparr>columns = [''freeCashFlow''],
            rows = map (\<lambda>q. (q, \<lambda>c. Some 1)) EXPECTED_QTR_INDEX\<rparr>)] = Inr result
     \<and> (((2000, 1), v) \<in> set (rows result) \<and> v ''ROA'' = Some 2 \<and> v ''EBIT_margin'' = None)"
proof -
  define inc where "inc = \<lparr>columns = [''netIncome'', ''ebit'', ''totalRevenue''],
            rows = map (\<lambda>q. (q, \<lambda>c. if c = ''totalRevenue'' then Some 0 else Some (6 :: real)))
                     EXPECTED_QTR_INDEX\<rparr>"
  define bal where "bal = \<lparr>columns = [''totalAssets'', ''totalStockholderEquity'',
              ''totalCurrentAssets'', ''totalCurrentLiabilities'', ''shortLongTermDebtTotal''],
            rows = map (\<lambda>q. (q, \<lambda>c. Some (3 :: real))) EXPECTED_QTR_INDEX\<rparr>"
  define cf where "cf = \<lparr>columns = [''freeCashFlow''],
            rows = map (\<lambda>q. (q, \<lambda>c. Some (1 :: real))) EXPECTED_QTR_INDEX\<rparr>"
  define srcs where "srcs = [(''income'', Some inc), (''balance'', Some bal), (''cashflow'', Some cf)]"
  have cols: "\<forall>r \<in> set RATIOS. \<exists>nsrc dsrc.
      map_of srcs (numerator_src r) = Some (Some nsrc) \<and> numerator_col r \<in> set (columns nsrc)
    \<and> map_of srcs (denominator_src r) = Some (Some dsrc) \<and> denominator_col r \<in> set (columns dsrc)"
    by (simp add: RATIOS_def mk_ratio_def srcs_def inc_def bal_def cf_def)
  from compute_ratios_zero_denominator [OF cols] obtain result where
    res: "compute_ratios srcs = Inr result" and ix: "map fst (rows result) = EXPECTED_QTR_INDEX"
    and cells: "\<forall>r \<in> set RATIOS. \<forall>nsrc dsrc q vn vd v.
          map_of srcs (numerator_src r) = Some (Some nsrc)
        \<and> map_of srcs (denominator_src r) = Some (Some dsrc)
        \<and> map_of (rows nsrc) q = Some vn \<and> map_of (rows dsrc) q = Some vd
        \<and> (q, v) \<in> set (rows result) \<longrightarrow>
            (vd (denominator_col r) = Some 0 \<longrightarrow> v (name r) = None)
          \<and> (\<forall>n d. vn (numerator_col r) = Some n \<and> vd (denominator_col r) = Some d \<and> d \<noteq> 0
                 \<longrightarrow> v (name r) = Some (n / d))
          \<and> (vn (numerator_col r) = None \<or> vd (denominator_col r) = None
                 \<longrightarrow> v (name r) = None)"
    by (elim exE conjE)
  have "(2000, 1) \<in> fst ` set (rows result)"
    using ix first_quarter_expected by (metis set_map)
  then obtain v where v: "((2000, 1), v) \<in> set (rows result)" by force
  let ?roa = "mk_ratio ''ROA'' ''netIncome'' ''income'' ''totalAssets'' ''balance''"
  let ?ebit = "mk_ratio ''EBIT_margin'' ''ebit'' ''income'' ''totalRevenue'' ''income''"
  have r1: "?roa \<in> set RATIOS" and r2: "?ebit \<in> set RATIOS" by (simp_all add: RATIOS_def)
  have s1: "map_of srcs (numerator_src ?roa) = Some (Some inc)"
    and s2: "map_of srcs (denominator_src ?roa) = Some (Some bal)"
    and s3: "map_of srcs (numerator_src ?ebit) = Some (Some inc)"
    and s4: "map_of srcs (denominator_src ?ebit) = Some (Some inc)"
    by (simp_all add: srcs_def mk_ratio_def)
  have m1: "map_of (rows inc) (2000, 1) = Some (\<lambda>c. if c = ''totalRevenue'' then Some 0 else Some 6)"
    and m2: "map_of (rows bal) (2000, 1) = Some (\<lambda>c. Some 3)"
    unfolding inc_def bal_def using first_quarter_expected by (simp_all add: map_of_tabulate)
  from cells [rule_format, OF r1, of inc bal "(2000, 1)" _ _ v] s1 s2 m1 m2 v
  have a: "v ''ROA'' = Some 2" by (simp add: mk_ratio_def)
  from cells [rule_format, OF r2, of inc inc "(2000, 1)" _ _ v] s3 s4 m1 v
  have b: "v ''EBIT_margin'' = None" by (simp add: mk_ratio_def)
  from res v a b show ?thesis unfolding srcs_def inc_def bal_def cf_def by blast
qed

theorem compute_ratios_missing_column_raises:
  "is_complete
       [(''income'', Some \<lparr>columns = [''netIncome'', ''totalRevenue''],
            rows = map (\<lambda>q. (q, \<lambda>c. Some 6)) EXPECTED_QTR_INDEX\<rparr>),
        (''balance'', Some \<lparr>columns = [''totalAssets'', ''totalStockholderEquity'',
              ''totalCurrentAssets'', ''totalCurrentLiabilities'', ''shortLongTermDebtTotal''],
            rows = map (\<lambda>q. (q, \<lambda>c. Some 0)) EXPECTED_QTR_INDEX\<rparr>),
        (''cashflow'', Some \<lparr>columns = [''freeCashFlow''],
            rows = map (\<lambda>q. (q, \<lambda>c. Some 1)) EXPECTED_QTR_INDEX\<rparr>)]
   \<and> compute_ratios
       [(''income'', Some \<lparr>columns = [''netIncome'', ''totalRevenue''],
            rows = map (\<lambda>q. (q, \<lambda>c. Some 6)) EXPECTED_QTR_INDEX\<rparr>),
        (''balance'', Some \<lparr>columns = [''totalAssets'', ''totalStockholderEquity'',
              ''totalCurrentAssets'', ''totalCurrentLiabilities'', ''shortLongTermDebtTotal''],
            rows = map (\<lambda>q. (q, \<lambda>c. Some 0)) EXPECTED_QTR_INDEX\<rparr>),
        (''cashflow'', Some \<lparr>columns = [''freeCashFlow''],
            rows = map (\<lambda>q. (q, \<lambda>c. Some 1)) EXPECTED_QTR_INDEX\<rparr>)]
     = Inl (KeyError ''ebit'')"
proof (rule conjI)
  show "is_complete
       [(''income'', Some \<lparr>columns = [''netIncome'', ''totalRevenue''],
            rows = map (\<lambda>q. (q, \<lambda>c. Some 6)) EXPECTED_QTR_INDEX\<rparr>),
        (''balance'', Some \<lparr>columns = [''totalAssets'', ''totalStockholderEquity'',
              ''totalCurrentAssets'', ''totalCurrentLiabilities'', ''shortLongTermDebtTotal''],
            rows = map (\<lambda>q. (q, \<lambda>c. Some 0)) EXPECTED_QTR_INDEX\<rparr>),
        (''cashflow'', Some \<lparr>columns = [''freeCashFlow''],
            rows = map (\<lambda>q. (q, \<lambda>c. Some 1)) EXPECTED_QTR_INDEX\<rparr>)]"
    unfolding is_complete_iff by (simp add: image_image)
  show "compute_ratios
       [(''income'', Some \<lparr>columns = [''netIncome'', ''totalRevenue''],
            rows = map (\<lambda>q. (q, \<lambda>c. Some 6)) EXPECTED_QTR_INDEX\<rparr>),
        (''balance'', Some \<lparr>columns = [''totalAssets'', ''totalStockholderEquity'',
              ''totalCurrentAssets'', ''totalCurrentLiabilities'', ''shortLongTermDebtTotal''],
            rows = map (\<lambda>q. (q, \<lambda>c. Some 0)) EXPECTED_QTR_INDEX\<rparr>),
        (''cashflow'', Some \<lparr>columns = [''freeCashFlow''],
            rows = map (\<lambda>q. (q, \<lambda>c. Some 1)) EXPECTED_QTR_INDEX\<rparr>)]
     = Inl (KeyError ''ebit'')"
    by (simp add: compute_ratios_def RATIOS_def mk_ratio_def ratio_step_def dict_getitem_def
        getitem_col_def)
qed

section \<open>Properties of the AR(1) estimator\<close>

lemma and_then_InrE:
  assumes "and_then m f = Inr y"
  obtains x where "m = Inr x" "f x = Inr y"
  using assms by (cases m) simp_all

lemma fit_skips:
  assumes "length (differenced s) < AR_ORDER + 3 \<or> std (differenced s) < 1 / 10 ^ 15
     \<or> length (response (differenced s)) < AR_ORDER + 3
     \<or> fit (response (differenced s)) (regressor (differenced s)) = None"
  shows "fit_ar1_on_diff fit s = Inr None"
  using assms unfolding fit_ar1_on_diff_def Let_def by auto

lemma fit_some:
  assumes "fit_ar1_on_diff fit s = Inr (Some est)"
  shows "\<not> length (differenced s) < AR_ORDER + 3"
    and "\<not> std (differenced s) < 1 / 10 ^ 15"
    and "\<not> length (response (differenced s)) < AR_ORDER + 3"
    and "fit (response (differenced s)) (regressor (differenced s)) \<noteq> None"
    and "half_life est =
     (case phi1 est of
        None \<Rightarrow> None
      | Some p \<Rightarrow> if 0 < p \<and> p < 1 then Some (ln (1 / 2) / ln \<bar>p\<bar>) else None)"
proof -
  let ?d = "differenced s"
  let ?y = "response ?d"
  let ?x = "regressor ?d"
  from assms show c1: "\<not> length ?d < AR_ORDER + 3"
    unfolding fit_ar1_on_diff_def Let_def by (cases "length ?d < AR_ORDER + 3") simp_all
  from assms c1 show c2: "\<not> std ?d < 1 / 10 ^ 15"
    unfolding fit_ar1_on_diff_def Let_def by (cases "std ?d < 1 / 10 ^ 15") simp_all
  from assms c1 c2 show c3: "\<not> length ?y < AR_ORDER + 3"
    unfolding fit_ar1_on_diff_def Let_def by (cases "length ?y < AR_ORDER + 3") simp_all
  from assms c1 c2 c3 obtain model where m: "fit ?y ?x = Some model"
    unfolding fit_ar1_on_diff_def Let_def by (cases "fit ?y ?x") simp_all
  then show "fit ?y ?x \<noteq> None" by simp
  from assms c1 c2 c3 m have
    "and_then (getitem (params model) 1) (\<lambda>p1.
     and_then (getitem (bse model) 1) (\<lambda>se1.
     and_then (getitem (pvalues model) 1) (\<lambda>pv1.
     and_then (getitem (params model) 0) (\<lambda>p0.
       Inr (Some \<lparr>phi1 = p1, phi1_se = se1, phi1_pval = pv1, c = p0,
                                 r_squared = rsquared model, sigma_diff = std ?d,
                                 half_life = (case p1 of
                              None \<Rightarrow> None
                            | Some p \<Rightarrow> if 0 < p \<and> p < 1 then Some (ln (1 / 2) / ln \<bar>p\<bar>)
                                        else None), n_obs = length ?y\<rparr>))))) = Inr (Some est)"
    unfolding fit_ar1_on_diff_def Let_def by simp
  then show "half_life est =
     (case phi1 est of
        None \<Rightarrow> None
      | Some p \<Rightarrow> if 0 < p \<and> p < 1 then Some (ln (1 / 2) / ln \<bar>p\<bar>) else None)"
    by (elim and_then_InrE) auto
qed

lemma half_life_positive:
  fixes p :: real
  assumes "0 < p" "p < 1"
  shows "0 < ln (1 / 2) / ln \<bar>p\<bar>"
proof -
  have "\<bar>p\<bar> = p" using assms by simp
  then have "ln \<bar>p\<bar> < 0" using assms by simp
  moreover have "ln (1 / 2 :: real) < 0" by simp
  ultimately show ?thesis by (rule divide_neg_neg [rotated])
qed

lemma estimate_loop_features:
  "estimate_loop fit p pairs = Inr results \<Longrightarrow> f \<in> set results \<Longrightarrow>
   (f_ticker f, f_ratio f) \<in> set pairs
   \<and> estimate_pair fit p (f_ticker f) (f_ratio f) = Inr (Some (f_fit f))"
proof (induction pairs arbitrary: results)
  case Nil
  then show ?case by simp
next
  case (Cons a pairs)
  obtain t ratio where a: "a = (t, ratio)" by (cases a)
  from Cons.prems(1) obtain res rest where
    e: "estimate_pair fit p t ratio = Inr res" and l: "estimate_loop fit p pairs = Inr rest"
    and r: "results = (case res of None \<Rightarrow> rest
                      | Some est \<Rightarrow> \<lparr>f_ticker = t, f_ratio = ratio, f_fit = est\<rparr> # rest)"
    unfolding a estimate_loop.simps by (elim and_then_InrE) simp
  show ?case
  proof (cases "f \<in> set rest")
    case True
    from Cons.IH [OF l True] show ?thesis by simp
  next
    case False
    with Cons.prems(2) r obtain est where "res = Some est"
      "f = \<lparr>f_ticker = t, f_ratio = ratio, f_fit = est\<rparr>"
      by (cases res) auto
    with e show ?thesis unfolding a by simp
  qed
qed

lemma estimate_pair_some:
  assumes "estimate_pair fit p t ratio = Inr (Some est)"
  shows "ratio \<in> set (pcolumns p)"
    and "\<not> length (dropna (ticker_series p t ratio)) < AR_ORDER + DIFF_ORDER + 3"
    and "fit_ar1_on_diff fit (ticker_series p t ratio) = Inr (Some est)"
  using assms unfolding estimate_pair_def Let_def by (auto split: if_splits)

lemma estimate_ar_features_loop:
  assumes "estimate_ar_features fit p = Inr feats"
  shows "estimate_loop fit p
      (List.product (sort (remdups (map ticker (prows p)))) RATIO_NAMES) = Inr feats"
  using assms unfolding estimate_ar_features_def Let_def
  by (elim and_then_InrE) (simp split: if_splits)

lemma estimate_ar_features_fit:
  assumes "estimate_ar_features fit p = Inr feats" "f \<in> set feats"
  shows "fit_ar1_on_diff fit (ticker_series p (f_ticker f) (f_ratio f)) = Inr (Some (f_fit f))"
  using estimate_loop_features [OF estimate_ar_features_loop [OF assms(1)] assms(2)]
  by (simp add: estimate_pair_some)

text \<open>
  Claim C3. In every estimate that \<open>_fit_ar1_on_diff\<close> returns, and so in every row of the
  feature table, the half-life is \<open>ln 0.5 / ln |phi1|\<close> when \<open>0 < phi1 < 1\<close> and is
  missing for every other slope (\<open>phi1 \<le> 0\<close>, \<open>phi1 \<ge> 1\<close>, or NaN); a half-life that is
  present is a positive real number.
\<close>

theorem half_life_policy:
  assumes "fit_ar1_on_diff fit s = Inr (Some est)
     \<or> (\<exists>p feats f. estimate_ar_features fit p = Inr feats \<and> f \<in> set feats \<and> est = f_fit f)"
  shows "(\<forall>p. phi1 est = Some p \<and> 0 < p \<and> p < 1 \<longrightarrow> half_life est = Some (ln (1 / 2) / ln \<bar>p\<bar>))
     \<and> (\<forall>p. phi1 est = Some p \<and> (p \<le> 0 \<or> 1 \<le> p) \<longrightarrow> half_life est = None)
     \<and> (phi1 est = None \<longrightarrow> half_life est = None)
     \<and> (\<forall>h. half_life est = Some h \<longrightarrow> 0 < h)"
proof -
  from assms obtain s' where "fit_ar1_on_diff fit s' = Inr (Some est)"
    using estimate_ar_features_fit by blast
  note hl = fit_some(5) [OF this]
  show ?thesis
  proof (cases "phi1 est")
    case None
    with hl show ?thesis by simp
  next
    case (Some p)
    with hl half_life_positive [of p] show ?thesis by (auto split: if_splits)
  qed
qed

lemma demo_differenced:
  "differenced [Some 0, Some (-1), Some 0, Some (-1), Some 0, Some 0] = [-1, 1, -1, 1, 0]"
  by (simp add: diff_def shift_def fsub_def dropna_def List.map_filter_simps DIFF_ORDER_def)

lemma demo_std: "std [-1, 1, -1, 1, 0] = 1"
  by (simp add: std_def mean_def)

lemma demo_aligned:
  "response [-1, 1, -1, 1, 0] = [1, -1, 1, 0]" "regressor [-1, 1, -1, 1, 0] = [-1, 1, -1, 1]"
  by (simp_all add: shift_def dropna_def List.map_filter_simps AR_ORDER_def)

theorem half_life_policy_witness:
  "\<exists>est. fit_ar1_on_diff
       (\<lambda>y x. Some \<lparr>params = [Some 0, Some (1 / 2)], bse = [Some 1, Some 1],
                     pvalues = [Some 1, Some 1], rsquared = Some 0\<rparr>)
       [Some 0, Some (-1), Some 0, Some (-1), Some 0, Some 0] = Inr (Some est)
     \<and> phi1 est = Some (1 / 2) \<and> half_life est = Some 1"
proof -
  define fit :: ols where "fit = (\<lambda>y x. Some \<lparr>params = [Some 0, Some (1 / 2)], bse = [Some 1, Some 1],
                     pvalues = [Some 1, Some 1], rsquared = Some 0\<rparr>)"
  define s :: "float64 list" where "s = [Some 0, Some (-1), Some 0, Some (-1), Some 0, Some 0]"
  have d: "differenced s = [-1, 1, -1, 1, 0]" unfolding s_def by (rule demo_differenced)
  have "\<exists>est. fit_ar1_on_diff fit s = Inr (Some est) \<and> phi1 est = Some (1 / 2)"
    unfolding fit_ar1_on_diff_def Let_def d demo_std demo_aligned
    by (simp add: AR_ORDER_def getitem_def fit_def)
  then obtain est where e: "fit_ar1_on_diff fit s = Inr (Some est)" and p: "phi1 est = Some (1 / 2)"
    by blast
  have h: "(0 :: real) < 1 / 2 \<and> (1 / 2 :: real) < 1" by simp
  from conjunct1 [OF half_life_policy [OF disjI1 [OF e]], THEN spec, of "1 / 2"] p h
  have "half_life est = Some (ln (1 / 2) / ln \<bar>1 / 2\<bar>)" by blast
  then have "half_life est = Some 1" by simp
  with e p show ?thesis unfolding fit_def s_def by blast
qed

lemma estimate_pair_skips:
  assumes "ratio \<in> set (pcolumns p)"
    and "length (dropna (ticker_series p t ratio)) < AR_ORDER + DIFF_ORDER + 3
     \<or> length (differenced (ticker_series p t ratio)) < AR_ORDER + 3
     \<or> std (differenced (ticker_series p t ratio)) < 1 / 10 ^ 15
     \<or> length (response (differenced (ticker_series p t ratio))) < AR_ORDER + 3
     \<or> fit (response (differenced (ticker_series p t ratio)))
            (regressor (differenced (ticker_series p t ratio))) = None"
  shows "estimate_pair fit p t ratio = Inr None"
proof (cases "length (dropna (ticker_series p t ratio)) < AR_ORDER + DIFF_ORDER + 3")
  case True
  with assms(1) show ?thesis by (simp add: estimate_pair_def)
next
  case False
  from assms(2) have "fit_ar1_on_diff fit (ticker_series p t ratio) = Inr None"
  proof (rule disjE)
    assume "length (dropna (ticker_series p t ratio)) < AR_ORDER + DIFF_ORDER + 3"
    with False show ?thesis by (rule notE)
  next
    assume "length (differenced (ticker_series p t ratio)) < AR_ORDER + 3
     \<or> std (differenced (ticker_series p t ratio)) < 1 / 10 ^ 15
     \<or> length (response (differenced (ticker_series p t ratio))) < AR_ORDER + 3
     \<or> fit (response (differenced (ticker_series p t ratio)))
            (regressor (differenced (ticker_series p t ratio))) = None"
    then show ?thesis by (rule fit_skips)
  qed
  with False assms(1) show ?thesis unfolding estimate_pair_def Let_def
    by (simp only: if_False if_True not_not simp_thms)
qed

lemma feature_passed_all_checks:
  assumes "estimate_ar_features fit p = Inr feats" "f \<in> set feats"
  shows "\<not> length (dropna (ticker_series p (f_ticker f) (f_ratio f))) < AR_ORDER + DIFF_ORDER + 3"
    and "\<not> length (differenced (ticker_series p (f_ticker f) (f_ratio f))) < AR_ORDER + 3"
    and "\<not> std (differenced (ticker_series p (f_ticker f) (f_ratio f))) < 1 / 10 ^ 15"
    and "\<not> length (response (differenced (ticker_series p (f_ticker f) (f_ratio f)))) < AR_ORDER + 3"
    and "fit (response (differenced (ticker_series p (f_ticker f) (f_ratio f))))
            (regressor (differenced (ticker_series p (f_ticker f) (f_ratio f)))) \<noteq> None"
proof -
  from estimate_loop_features [OF estimate_ar_features_loop [OF assms(1)] assms(2)]
  have e: "estimate_pair fit p (f_ticker f) (f_ratio f) = Inr (Some (f_fit f))" by (rule conjunct2)
  from estimate_pair_some(2) [OF e]
  show "\<not> length (dropna (ticker_series p (f_ticker f) (f_ratio f))) < AR_ORDER + DIFF_ORDER + 3" .
  note s = fit_some [OF estimate_pair_some(3) [OF e]]
  from s(1) show "\<not> length (differenced (ticker_series p (f_ticker f) (f_ratio f))) < AR_ORDER + 3" .
  from s(2) show "\<not> std (differenced (ticker_series p (f_ticker f) (f_ratio f))) < 1 / 10 ^ 15" .
  from s(3) show "\<not> length (response (differenced (ticker_series p (f_ticker f) (f_ratio f)))) < AR_ORDER + 3" .
  from s(4) show "fit (response (differenced (ticker_series p (f_ticker f) (f_ratio f))))
            (regressor (differenced (ticker_series p (f_ticker f) (f_ratio f)))) \<noteq> None" .
qed

lemma estimate_loop_all_skipped:
  "(\<And>t ratio. (t, ratio) \<in> set pairs \<Longrightarrow> estimate_pair fit p t ratio = Inr None) \<Longrightarrow>
   estimate_loop fit p pairs = Inr []"
proof (induction pairs)
  case Nil
  show ?case by simp
next
  case (Cons a pairs)
  obtain t ratio where a: "a = (t, ratio)" by (cases a)
  have h: "estimate_pair fit p t ratio = Inr None" using Cons.prems [of t ratio] a by simp
  have r: "estimate_loop fit p pairs = Inr []" using Cons.IH Cons.prems by simp
  show ?case unfolding a estimate_loop.simps h r by simp
qed

lemma dropna_all_nan: "set s \<subseteq> {None} \<Longrightarrow> dropna s = []"
  by (induction s) (simp_all add: dropna_def List.map_filter_simps)

lemma estimate_pair_all_nan:
  assumes "ratio \<in> set (pcolumns p)" "\<And>r. r \<in> set (prows p) \<Longrightarrow> cells r ratio = None"
  shows "estimate_pair fit p t ratio = Inr None"
proof -
  have "set (ticker_series p t ratio) \<subseteq> {None}"
    unfolding ticker_series_def using assms(2) by auto
  then have "dropna (ticker_series p t ratio) = []" by (rule dropna_all_nan)
  with assms(1) show ?thesis by (simp add: estimate_pair_def)
qed

lemma estimate_ar_features_empty:
  assumes "\<And>t ratio. ratio \<in> set RATIO_NAMES \<Longrightarrow> estimate_pair fit p t ratio = Inr None"
  shows "estimate_ar_features fit p = Inl (KeyError ''ticker'')"
proof -
  have "estimate_loop fit p (List.product (sort (remdups (map ticker (prows p)))) RATIO_NAMES) = Inr []"
    by (rule estimate_loop_all_skipped) (simp add: assms)
  then show ?thesis by (simp add: estimate_ar_features_def)
qed

text \<open>
  Claim C7. The loop of \<open>estimate_ar_features\<close> skips a pair on each of the listed
  conditions and keeps a pair only when none of them holds, but the function does not
  return the empty feature table: when every pair of the panel is skipped, the log line
  after the loop reads the column \<open>ticker\<close> of a frame that has no columns, and the
  function raises \<open>KeyError\<close>. The panel here holds one company over the 100 canonical
  quarters whose seven ratios are all missing, so that every pair has fewer than five
  numbers; the fit is arbitrary.
\<close>

theorem estimate_ar_features_all_skipped_raises:
  "estimate_ar_features fit
     \<lparr>pcolumns = RATIO_NAMES,
      prows = map (\<lambda>q. \<lparr>ticker = ''AAA'', quarter = period_str q, cells = (\<lambda>col. None)\<rparr>)
                EXPECTED_QTR_INDEX\<rparr>
   = Inl (KeyError ''ticker'')"
proof (rule estimate_ar_features_empty)
  fix t ratio
  assume "ratio \<in> set RATIO_NAMES"
  then show "estimate_pair fit
     \<lparr>pcolumns = RATIO_NAMES,
      prows = map (\<lambda>q. \<lparr>ticker = ''AAA'', quarter = period_str q, cells = (\<lambda>col. None)\<rparr>)
                EXPECTED_QTR_INDEX\<rparr> t ratio = Inr None"
    by (intro estimate_pair_all_nan) auto
qed

section \<open>Properties of the winsorizer\<close>

lemma floor_position:
  fixes h :: real
  assumes "0 \<le> h" "h \<le> real (n - 1)"
  shows "real (nat \<lfloor>h\<rfloor>) \<le> h" "h < real (nat \<lfloor>h\<rfloor>) + 1" "nat \<lfloor>h\<rfloor> \<le> n - 1"
proof -
  from assms(1) have f: "0 \<le> \<lfloor>h\<rfloor>" by simp
  then have r: "real (nat \<lfloor>h\<rfloor>) = of_int \<lfloor>h\<rfloor>" by simp
  show "real (nat \<lfloor>h\<rfloor>) \<le> h" unfolding r by simp
  show "h < real (nat \<lfloor>h\<rfloor>) + 1" unfolding r by linarith
  have "\<lfloor>h\<rfloor> \<le> int (n - 1)" using assms(2) by (simp add: floor_le_iff)
  then show "nat \<lfloor>h\<rfloor> \<le> n - 1" using f by linarith
qed

lemma quantile_interpolate:
  assumes "dropna s \<noteq> []" "0 \<le> q" "q \<le> 1"
  shows "quantile s q = Some (interpolate (sort (dropna s)) (q * real (length (dropna s) - 1)))"
proof -
  define xs where "xs = sort (dropna s)"
  define n where "n = length xs"
  define h where "h = q * real (n - 1)"
  have n0: "n \<noteq> 0" using assms(1) by (simp add: n_def xs_def)
  have h0: "0 \<le> h" using assms(2) by (simp add: h_def)
  have h1: "h \<le> real (n - 1)" unfolding h_def using assms(2,3) by (intro mult_left_le_one_le) simp_all
  note fp = floor_position [OF h0 h1]
  have "quantile s q =
      (if n = 0 then None
       else if nat \<lfloor>h\<rfloor> + 1 < n
            then Some (xs ! nat \<lfloor>h\<rfloor> + (h - real (nat \<lfloor>h\<rfloor>)) * (xs ! (nat \<lfloor>h\<rfloor> + 1) - xs ! nat \<lfloor>h\<rfloor>))
            else Some (xs ! (n - 1)))"
    unfolding quantile_def Let_def xs_def [symmetric] n_def [symmetric] h_def [symmetric]
    by (rule refl)
  also have "\<dots> = Some (xs ! nat \<lfloor>h\<rfloor> + (h - real (nat \<lfloor>h\<rfloor>))
                   * (xs ! min (nat \<lfloor>h\<rfloor> + 1) (n - 1) - xs ! nat \<lfloor>h\<rfloor>))"
  proof (cases "nat \<lfloor>h\<rfloor> + 1 < n")
    case True
    then have "min (nat \<lfloor>h\<rfloor> + 1) (n - 1) = nat \<lfloor>h\<rfloor> + 1" by simp
    with True n0 show ?thesis by simp
  next
    case False
    with fp(3) n0 have i: "nat \<lfloor>h\<rfloor> = n - 1" by linarith
    then have "min (nat \<lfloor>h\<rfloor> + 1) (n - 1) = nat \<lfloor>h\<rfloor>" by simp
    with False n0 i show ?thesis by simp
  qed
  also have "\<dots> = Some (interpolate (sort (dropna s)) (q * real (length (dropna s) - 1)))"
    unfolding h_def n_def xs_def length_sort by (rule refl)
  finally show ?thesis .
qed

lemma quantile_nan: "dropna s = [] \<Longrightarrow> quantile s q = None"
  by (simp add: quantile_def)

lemma interpolate_bounds:
  assumes "sorted xs" "xs \<noteq> []" "0 \<le> h" "h \<le> real (length xs - 1)"
  shows "xs ! nat \<lfloor>h\<rfloor> \<le> interpolate xs h"
    and "interpolate xs h \<le> xs ! min (nat \<lfloor>h\<rfloor> + 1) (length xs - 1)"
proof -
  let ?i = "nat \<lfloor>h\<rfloor>"
  let ?j = "min (?i + 1) (length xs - 1)"
  note fp = floor_position [OF assms(3,4)]
  have len: "0 < length xs" using assms(2) by simp
  then have j: "?j < length xs" by (simp add: min_less_iff_disj)
  have ij: "?i \<le> ?j" using fp(3) by simp
  have d: "0 \<le> xs ! ?j - xs ! ?i" using sorted_nth_mono [OF assms(1) ij j] by simp
  have g0: "0 \<le> h - real ?i" and g1: "h - real ?i \<le> 1" using fp(1,2) by linarith+
  show "xs ! ?i \<le> interpolate xs h" using d g0 by simp
  have "(h - real ?i) * (xs ! ?j - xs ! ?i) \<le> 1 * (xs ! ?j - xs ! ?i)"
    using g1 d by (rule mult_right_mono)
  then show "interpolate xs h \<le> xs ! ?j" by simp
qed

lemma interpolate_mono:
  assumes "sorted xs" "xs \<noteq> []" "0 \<le> h1" "h1 \<le> h2" "h2 \<le> real (length xs - 1)"
  shows "interpolate xs h1 \<le> interpolate xs h2"
proof -
  let ?i1 = "nat \<lfloor>h1\<rfloor>" and ?i2 = "nat \<lfloor>h2\<rfloor>"
  let ?j1 = "min (?i1 + 1) (length xs - 1)"
  have h2pos: "0 \<le> h2" and h1top: "h1 \<le> real (length xs - 1)" using assms by simp_all
  note fp1 = floor_position [OF assms(3) h1top]
  note fp2 = floor_position [OF h2pos assms(5)]
  have le: "?i1 \<le> ?i2" using assms(4) by (simp add: floor_mono nat_mono)
  show ?thesis
  proof (cases "?i1 = ?i2")
    case True
    have len: "0 < length xs" using assms(2) by simp
    then have j: "?j1 < length xs" by (simp add: min_less_iff_disj)
    have "?i1 \<le> ?j1" using fp1(3) by simp
    from sorted_nth_mono [OF assms(1) this j] have d: "0 \<le> xs ! ?j1 - xs ! ?i1" by simp
    have "(h1 - real ?i1) * (xs ! ?j1 - xs ! ?i1) \<le> (h2 - real ?i1) * (xs ! ?j1 - xs ! ?i1)"
      using assms(4) d by (intro mult_right_mono) simp_all
    then show ?thesis unfolding True [symmetric] by simp
  next
    case False
    with le have lt: "?i1 + 1 \<le> ?i2" by simp
    have i2: "?i2 < length xs" using fp2(3) assms(2) by (cases xs) simp_all
    have "?j1 \<le> ?i2" using lt by simp
    from sorted_nth_mono [OF assms(1) this i2] have m: "xs ! ?j1 \<le> xs ! ?i2" .
    have "interpolate xs h1 \<le> xs ! ?j1" by (rule interpolate_bounds(2) [OF assms(1,2,3) h1top])
    also note m
    also have "xs ! ?i2 \<le> interpolate xs h2" by (rule interpolate_bounds(1) [OF assms(1,2) h2pos assms(5)])
    finally show ?thesis .
  qed
qed

lemma interpolate_within:
  assumes "sorted xs" "xs \<noteq> []" "0 \<le> h" "h \<le> real (length xs - 1)"
    "\<forall>x \<in> set xs. a \<le> x \<and> x \<le> b"
  shows "a \<le> interpolate xs h" "interpolate xs h \<le> b"
proof -
  let ?i = "nat \<lfloor>h\<rfloor>"
  let ?j = "min (?i + 1) (length xs - 1)"
  note fp = floor_position [OF assms(3,4)]
  have i: "?i < length xs" using fp(3) assms(2) by (cases xs) simp_all
  have len: "0 < length xs" using assms(2) by simp
  then have j: "?j < length xs" by (simp add: min_less_iff_disj)
  from i assms(5) have "a \<le> xs ! ?i" by simp
  with interpolate_bounds(1) [OF assms(1-4)] show "a \<le> interpolate xs h" by simp
  from j assms(5) have "xs ! ?j \<le> b" using nth_mem by blast
  with interpolate_bounds(2) [OF assms(1-4)] show "interpolate xs h \<le> b" by simp
qed

lemma clip_ordered:
  assumes "l \<le> u"
  shows "clip s (Some l) (Some u) = map (map_option (\<lambda>x. max l (min u x))) s"
proof -
  have "clip_value (Some l) (Some u) x = max l (min u x)" for x
    using assms by (simp add: clip_value_def Let_def max_def min_def)
  then have "clip_value (Some l) (Some u) = (\<lambda>x. max l (min u x))" by (rule ext)
  moreover have "min l u = l" "max l u = u" using assms by simp_all
  ultimately show ?thesis by (simp add: clip_def)
qed

lemma clip_nan_bounds: "clip s None None = s"
proof -
  have "clip_value None None = (\<lambda>x. x)" by (rule ext) (simp add: clip_value_def)
  moreover have "map_option (\<lambda>x. x) = (\<lambda>v :: float64. v)" by (rule ext) (simp add: option.map_ident)
  ultimately show ?thesis by (simp add: clip_def)
qed

lemma length_clip_col: "length (clip_col lo hi s) = length s"
  by (simp add: clip_col_def clip_def Let_def case_prod_unfold)

lemma sorted_values: "sorted (sort (dropna s))" "sort (dropna s) \<noteq> [] \<longleftrightarrow> dropna s \<noteq> []"
  by (simp_all add: sorted_sort) (metis length_sort length_0_conv)

lemma clip_col_values:
  assumes "dropna s \<noteq> []" "0 \<le> lo" "lo \<le> hi" "hi \<le> 1"
  shows "interpolate (sort (dropna s)) (lo * real (length (dropna s) - 1))
          \<le> interpolate (sort (dropna s)) (hi * real (length (dropna s) - 1))"
    and "clip_col lo hi s =
          map (map_option (\<lambda>x. max (interpolate (sort (dropna s)) (lo * real (length (dropna s) - 1)))
                           (min (interpolate (sort (dropna s)) (hi * real (length (dropna s) - 1))) x))) s"
proof -
  let ?xs = "sort (dropna s)"
  let ?m = "real (length (dropna s) - 1)"
  have ne: "?xs \<noteq> []" using assms(1) sorted_values(2) by blast
  have m: "?m = real (length ?xs - 1)" by simp
  have a: "0 \<le> lo * ?m" using assms(2) by simp
  have b: "lo * ?m \<le> hi * ?m" using assms(3) by (intro mult_right_mono) simp_all
  have c: "hi * ?m \<le> real (length ?xs - 1)" unfolding m [symmetric]
    using assms(2,3,4) by (intro mult_left_le_one_le) simp_all
  show le: "interpolate ?xs (lo * ?m) \<le> interpolate ?xs (hi * ?m)"
    by (rule interpolate_mono [OF sorted_values(1) ne a b c])
  have hi0: "0 \<le> hi" and lo1: "lo \<le> 1" using assms(2,3,4) by simp_all
  show "clip_col lo hi s =
          map (map_option (\<lambda>x. max (interpolate ?xs (lo * ?m)) (min (interpolate ?xs (hi * ?m)) x))) s"
    unfolding clip_col_def Let_def
      quantile_interpolate [OF assms(1,2) lo1] quantile_interpolate [OF assms(1) hi0 assms(4)]
    by (rule clip_ordered [OF le])
qed

lemma clip_col_all_nan: "dropna s = [] \<Longrightarrow> clip_col lo hi s = s"
  by (simp add: clip_col_def Let_def quantile_nan clip_nan_bounds)

lemma set_column_rows:
  assumes "length vs = length (prows p)"
  shows "map ticker (prows (set_column p col vs)) = map ticker (prows p)"
    and "map quarter (prows (set_column p col vs)) = map quarter (prows p)"
    and "get_column (set_column p col vs) col' = (if col' = col then vs else get_column p col')"
    and "pcolumns (set_column p col vs) = pcolumns p"
proof -
  have t: "length xs = length ys \<Longrightarrow>
      map ticker (map2 (\<lambda>r v. r\<lparr>cells := (cells r)(col := v)\<rparr>) xs ys) = map ticker xs"
    for xs :: "panel_row list" and ys
    by (induction xs ys rule: list_induct2) simp_all
  have q: "length xs = length ys \<Longrightarrow>
      map quarter (map2 (\<lambda>r v. r\<lparr>cells := (cells r)(col := v)\<rparr>) xs ys) = map quarter xs"
    for xs :: "panel_row list" and ys
    by (induction xs ys rule: list_induct2) simp_all
  have g: "length xs = length ys \<Longrightarrow>
      map (\<lambda>r. cells r col') (map2 (\<lambda>r v. r\<lparr>cells := (cells r)(col := v)\<rparr>) xs ys)
        = (if col' = col then ys else map (\<lambda>r. cells r col') xs)"
    for xs :: "panel_row list" and ys
    by (induction xs ys rule: list_induct2) simp_all
  from assms have l: "length (prows p) = length vs" by simp
  show "map ticker (prows (set_column p col vs)) = map ticker (prows p)"
    unfolding set_column_def using t [OF l] by simp
  show "map quarter (prows (set_column p col vs)) = map quarter (prows p)"
    unfolding set_column_def using q [OF l] by simp
  show "get_column (set_column p col vs) col' = (if col' = col then vs else get_column p col')"
    unfolding set_column_def get_column_def using g [OF l] by simp
  show "pcolumns (set_column p col vs) = pcolumns p" by (simp add: set_column_def)
qed

lemma winsorize_col_rows:
  shows "map ticker (prows (winsorize_col p cn)) = map ticker (prows p)"
    and "map quarter (prows (winsorize_col p cn)) = map quarter (prows p)"
    and "pcolumns (winsorize_col p cn) = pcolumns p"
    and "get_column (winsorize_col p cn) col =
          (if col = cn \<and> cn \<in> set (pcolumns p)
           then clip_col (fst WINSORIZE_QUANTILES) (snd WINSORIZE_QUANTILES) (get_column p cn)
           else get_column p col)"
proof -
  have l: "length (clip_col (fst WINSORIZE_QUANTILES) (snd WINSORIZE_QUANTILES) (get_column p cn))
      = length (prows p)"
    by (simp add: length_clip_col get_column_def)
  note sc = set_column_rows [OF l]
  show "map ticker (prows (winsorize_col p cn)) = map ticker (prows p)"
    by (simp add: winsorize_col_def sc(1))
  show "map quarter (prows (winsorize_col p cn)) = map quarter (prows p)"
    by (simp add: winsorize_col_def sc(2))
  show "pcolumns (winsorize_col p cn) = pcolumns p"
    by (simp add: winsorize_col_def sc(4))
  show "get_column (winsorize_col p cn) col =
          (if col = cn \<and> cn \<in> set (pcolumns p)
           then clip_col (fst WINSORIZE_QUANTILES) (snd WINSORIZE_QUANTILES) (get_column p cn)
           else get_column p col)"
    by (simp add: winsorize_col_def sc(3))
qed

lemma winsorize_fold:
  assumes "distinct names"
  shows "map ticker (prows (foldl winsorize_col p names)) = map ticker (prows p)"
    and "map quarter (prows (foldl winsorize_col p names)) = map quarter (prows p)"
    and "pcolumns (foldl winsorize_col p names) = pcolumns p"
    and "get_column (foldl winsorize_col p names) col =
          (if col \<in> set names \<and> col \<in> set (pcolumns p)
           then clip_col (fst WINSORIZE_QUANTILES) (snd WINSORIZE_QUANTILES) (get_column p col)
           else get_column p col)"
  using assms
proof (induction names arbitrary: p)
  case Nil
  { case 1 show ?case by simp }
  { case 2 show ?case by simp }
  { case 3 show ?case by simp }
  { case 4 show ?case by simp }
next
  case (Cons cn names)
  { case 1 then show ?case using Cons.IH(1) [of "winsorize_col p cn"] by (simp add: winsorize_col_rows) }
  { case 2 then show ?case using Cons.IH(2) [of "winsorize_col p cn"] by (simp add: winsorize_col_rows) }
  { case 3 then show ?case using Cons.IH(3) [of "winsorize_col p cn"] by (simp add: winsorize_col_rows) }
  { case 4 then show ?case using Cons.IH(4) [of "winsorize_col p cn"]
      by (auto simp add: winsorize_col_rows) }
qed

lemma map_filter_map: "List.map_filter (\<lambda>v. v) (map f xs) = List.map_filter f xs"
  by (induction xs) (simp_all add: List.map_filter_simps split: option.split)

lemma dropna_column: "dropna (get_column p col) = List.map_filter (\<lambda>r. cells r col) (prows p)"
  unfolding get_column_def dropna_def by (rule map_filter_map)

lemma ratio_names_distinct': "distinct RATIO_NAMES"
  unfolding RATIO_NAMES_def by (rule ratio_names_distinct)

lemma winsorize_quantiles: "fst WINSORIZE_QUANTILES = 1 / 100" "snd WINSORIZE_QUANTILES = 99 / 100"
  by (simp_all add: WINSORIZE_QUANTILES_def)

lemma winsorize_panel_rows:
  shows "map ticker (prows (winsorize_panel p)) = map ticker (prows p)"
    and "map quarter (prows (winsorize_panel p)) = map quarter (prows p)"
    and "pcolumns (winsorize_panel p) = pcolumns p"
    and "length (prows (winsorize_panel p)) = length (prows p)"
proof -
  note f = winsorize_fold [OF ratio_names_distinct', of p]
  show t: "map ticker (prows (winsorize_panel p)) = map ticker (prows p)"
    unfolding winsorize_panel_def by (rule f(1))
  show "map quarter (prows (winsorize_panel p)) = map quarter (prows p)"
    unfolding winsorize_panel_def by (rule f(2))
  show "pcolumns (winsorize_panel p) = pcolumns p"
    unfolding winsorize_panel_def by (rule f(3))
  from t show "length (prows (winsorize_panel p)) = length (prows p)" by (rule map_eq_imp_length_eq)
qed

lemma winsorize_panel_column:
  assumes "col \<in> set RATIO_NAMES" "col \<in> set (pcolumns p)"
  shows "get_column (winsorize_panel p) col = clip_col (1 / 100) (99 / 100) (get_column p col)"
  unfolding winsorize_panel_def winsorize_fold(4) [OF ratio_names_distinct'] winsorize_quantiles
  using assms by simp

lemma winsorize_panel_clipped:
  assumes "col \<in> set RATIO_NAMES" "col \<in> set (pcolumns p)"
    and "xs = sort (List.map_filter (\<lambda>r. cells r col) (prows p))" "xs \<noteq> []"
  shows "interpolate xs (1 / 100 * real (length xs - 1)) \<le> interpolate xs (99 / 100 * real (length xs - 1))"
    and "get_column (winsorize_panel p) col =
          map (map_option (\<lambda>x. max (interpolate xs (1 / 100 * real (length xs - 1)))
                            (min (interpolate xs (99 / 100 * real (length xs - 1))) x)))
            (get_column p col)"
proof -
  have xs: "xs = sort (dropna (get_column p col))" unfolding assms(3) dropna_column by (rule refl)
  have ne: "dropna (get_column p col) \<noteq> []" using assms(4) sorted_values(2) unfolding xs by blast
  have len: "length xs = length (dropna (get_column p col))" unfolding xs by simp
  note cv = clip_col_values [OF ne, of "1 / 100" "99 / 100", folded xs len]
  show "interpolate xs (1 / 100 * real (length xs - 1)) \<le> interpolate xs (99 / 100 * real (length xs - 1))"
    by (rule cv(1)) simp_all
  show "get_column (winsorize_panel p) col =
          map (map_option (\<lambda>x. max (interpolate xs (1 / 100 * real (length xs - 1)))
                            (min (interpolate xs (99 / 100 * real (length xs - 1))) x)))
            (get_column p col)"
    unfolding winsorize_panel_column [OF assms(1,2)] by (rule cv(2)) simp_all
qed

lemma winsorize_panel_all_nan:
  assumes "col \<in> set RATIO_NAMES" "col \<in> set (pcolumns p)"
    "List.map_filter (\<lambda>r. cells r col) (prows p) = []"
  shows "get_column (winsorize_panel p) col = get_column p col"
  unfolding winsorize_panel_column [OF assms(1,2)]
  by (rule clip_col_all_nan) (simp add: dropna_column assms(3))

lemma winsorize_clips_column:
  assumes "col \<in> set RATIO_NAMES" "col \<in> set (pcolumns p)"
    and "xs = sort (List.map_filter (\<lambda>r. cells r col) (prows p))"
    and "xs \<noteq> []"
    and "lower = interpolate xs (1 / 100 * real (length xs - 1))"
    and "upper = interpolate xs (99 / 100 * real (length xs - 1))"
  shows "length (prows (winsorize_panel p)) = length (prows p)
     \<and> (\<forall>i < length (prows p).
          ticker (prows (winsorize_panel p) ! i) = ticker (prows p ! i)
        \<and> quarter (prows (winsorize_panel p) ! i) = quarter (prows p ! i)
        \<and> cells (prows (winsorize_panel p) ! i) col
            = map_option (\<lambda>x. max lower (min upper x)) (cells (prows p ! i) col))
     \<and> lower \<le> upper
     \<and> (\<forall>r \<in> set (prows (winsorize_panel p)). \<forall>x. cells r col = Some x \<longrightarrow> lower \<le> x \<and> x \<le> upper)"
proof -
  let ?w = "winsorize_panel p"
  note r = winsorize_panel_rows [of p]
  note c = winsorize_panel_clipped [OF assms(1-4), folded assms(5,6)]
  have nth: "ticker (prows ?w ! i) = ticker (prows p ! i)
        \<and> quarter (prows ?w ! i) = quarter (prows p ! i)
        \<and> cells (prows ?w ! i) col = map_option (\<lambda>x. max lower (min upper x)) (cells (prows p ! i) col)"
    if i: "i < length (prows p)" for i
  proof -
    from i r(4) have i': "i < length (prows ?w)" by simp
    have "ticker (prows ?w ! i) = map ticker (prows ?w) ! i" using i' by simp
    also have "\<dots> = ticker (prows p ! i)" unfolding r(1) using i by simp
    finally have a: "ticker (prows ?w ! i) = ticker (prows p ! i)" .
    have "quarter (prows ?w ! i) = map quarter (prows ?w) ! i" using i' by simp
    also have "\<dots> = quarter (prows p ! i)" unfolding r(2) using i by simp
    finally have b: "quarter (prows ?w ! i) = quarter (prows p ! i)" .
    have "cells (prows ?w ! i) col = get_column ?w col ! i" using i' by (simp add: get_column_def)
    also have "\<dots> = map_option (\<lambda>x. max lower (min upper x)) (cells (prows p ! i) col)"
      unfolding c(2) using i by (simp add: get_column_def)
    finally show ?thesis using a b by simp
  qed
  have within: "lower \<le> x \<and> x \<le> upper" if "r \<in> set (prows ?w)" "cells r col = Some x" for r x
  proof -
    from that(1) obtain i where i: "i < length (prows ?w)" "r = prows ?w ! i"
      by (auto simp add: in_set_conv_nth)
    with nth [of i] r(4) that(2)
    have "map_option (\<lambda>x. max lower (min upper x)) (cells (prows p ! i) col) = Some x" by simp
    then obtain y where "x = max lower (min upper y)" by auto
    with c(1) show ?thesis by simp
  qed
  from r(4) nth c(1) within show ?thesis by blast
qed

lemma map_filter_empty: "List.map_filter f xs = [] \<Longrightarrow> x \<in> set xs \<Longrightarrow> f x = None"
  by (induction xs) (auto simp add: List.map_filter_simps split: option.splits)

lemma winsorize_keeps_nan_column:
  assumes "col \<in> set RATIO_NAMES" "col \<in> set (pcolumns p)"
    "List.map_filter (\<lambda>r. cells r col) (prows p) = []" "i < length (prows p)"
  shows "cells (prows p ! i) col = None" "cells (prows (winsorize_panel p) ! i) col = None"
proof -
  show n: "cells (prows p ! i) col = None"
    using map_filter_empty [OF assms(3)] assms(4) by simp
  have "cells (prows (winsorize_panel p) ! i) col = get_column (winsorize_panel p) col ! i"
    using assms(4) winsorize_panel_rows(4) [of p] by (simp add: get_column_def)
  also have "\<dots> = cells (prows p ! i) col"
    unfolding winsorize_panel_all_nan [OF assms(1-3)] using assms(4) by (simp add: get_column_def)
  finally show "cells (prows (winsorize_panel p) ! i) col = None" using n by simp
qed

text \<open>
  Claim C5. For every ratio column of a panel, \<open>winsorize_panel\<close> takes as bounds the 1st and
  the 99th percentile (linear interpolation) of all the non-missing values of that column,
  the rows of all companies and all quarters pooled; it replaces every non-missing value
  \<open>x\<close> of the column by \<open>max lower (min upper x)\<close>, keeps missing values, tickers and quarter
  labels, and so leaves every non-missing value of the column within the bounds. A column
  without any number has no bounds and stays as it is.
\<close>

theorem winsorize_pooled_percentiles:
  assumes "col \<in> set RATIO_NAMES" "col \<in> set (pcolumns p)"
    and "xs = sort (List.map_filter (\<lambda>r. cells r col) (prows p))"
    and "lower = interpolate xs (1 / 100 * real (length xs - 1))"
    and "upper = interpolate xs (99 / 100 * real (length xs - 1))"
  shows "length (prows (winsorize_panel p)) = length (prows p)
     \<and> map ticker (prows (winsorize_panel p)) = map ticker (prows p)
     \<and> map quarter (prows (winsorize_panel p)) = map quarter (prows p)
     \<and> (xs = [] \<longrightarrow>
          (\<forall>i < length (prows p).
             cells (prows p ! i) col = None \<and> cells (prows (winsorize_panel p) ! i) col = None))
     \<and> (xs \<noteq> [] \<longrightarrow>
          lower \<le> upper
        \<and> (\<forall>i < length (prows p).
             cells (prows (winsorize_panel p) ! i) col
               = map_option (\<lambda>x. max lower (min upper x)) (cells (prows p ! i) col))
        \<and> (\<forall>r \<in> set (prows (winsorize_panel p)). \<forall>x.
             cells r col = Some x \<longrightarrow> lower \<le> x \<and> x \<le> upper))"
proof -
  note r = winsorize_panel_rows [of p]
  have e: "\<forall>i < length (prows p).
             cells (prows p ! i) col = None \<and> cells (prows (winsorize_panel p) ! i) col = None"
    if "xs = []"
  proof -
    from that have "List.map_filter (\<lambda>r. cells r col) (prows p) = []"
      unfolding assms(3) by (metis length_sort length_0_conv)
    from winsorize_keeps_nan_column [OF assms(1,2) this] show ?thesis by simp
  qed
  have n: "lower \<le> upper
        \<and> (\<forall>i < length (prows p).
             cells (prows (winsorize_panel p) ! i) col
               = map_option (\<lambda>x. max lower (min upper x)) (cells (prows p ! i) col))
        \<and> (\<forall>r \<in> set (prows (winsorize_panel p)). \<forall>x.
             cells r col = Some x \<longrightarrow> lower \<le> x \<and> x \<le> upper)"
    if "xs \<noteq> []"
    using winsorize_clips_column [OF assms(1,2,3) that assms(4,5)] by simp
  from r(4) r(1) r(2) e n show ?thesis by blast
qed

lemma roa_is_ratio: "''ROA'' \<in> set RATIO_NAMES"
  by (simp add: RATIO_NAMES_def RATIOS_def mk_ratio_def)

theorem winsorize_pooled_percentiles_witness:
  "cells (prows (winsorize_panel
       \<lparr>pcolumns = RATIO_NAMES,
        prows = [\<lparr>ticker = ''AAA'', quarter = ''2000Q1'', cells = (\<lambda>col. Some 0)\<rparr>,
                 \<lparr>ticker = ''BBB'', quarter = ''2000Q1'', cells = (\<lambda>col. Some 100)\<rparr>]\<rparr>) ! 0) ''ROA''
     = Some 1
   \<and> cells (prows (winsorize_panel
       \<lparr>pcolumns = RATIO_NAMES,
        prows = [\<lparr>ticker = ''AAA'', quarter = ''2000Q1'', cells = (\<lambda>col. Some 0)\<rparr>,
                 \<lparr>ticker = ''BBB'', quarter = ''2000Q1'', cells = (\<lambda>col. Some 100)\<rparr>]\<rparr>) ! 1) ''ROA''
     = Some 99"
proof -
  define p where "p = \<lparr>pcolumns = RATIO_NAMES,
        prows = [\<lparr>ticker = ''AAA'', quarter = ''2000Q1'', cells = (\<lambda>col. Some (0 :: real))\<rparr>,
                 \<lparr>ticker = ''BBB'', quarter = ''2000Q1'', cells = (\<lambda>col. Some (100 :: real))\<rparr>]\<rparr>"
  have a1: "''ROA'' \<in> set (pcolumns p)" by (simp add: p_def roa_is_ratio)
  have a2: "[0, 100 :: real] = sort (List.map_filter (\<lambda>r. cells r ''ROA'') (prows p))"
    by (simp add: p_def List.map_filter_simps)
  have a3: "[0, 100 :: real] \<noteq> []" by simp
  have a4: "(1 :: real) = interpolate [0, 100] (1 / 100 * real (length [0, 100 :: real] - 1))"
    by simp
  have a5: "(99 :: real) = interpolate [0, 100] (99 / 100 * real (length [0, 100 :: real] - 1))"
    by simp
  note w = winsorize_pooled_percentiles [OF roa_is_ratio a1 a2 a4 a5]
  from w a3 have all: "\<forall>i < length (prows p).
          cells (prows (winsorize_panel p) ! i) ''ROA''
            = map_option (\<lambda>x. max 1 (min 99 x)) (cells (prows p ! i) ''ROA'')"
    by simp
  have l: "length (prows p) = 2" by (simp add: p_def)
  from all [rule_format, of 0] l have z: "cells (prows (winsorize_panel p) ! 0) ''ROA'' = Some 1"
    by (simp add: p_def)
  from all [rule_format, of 1] l have o: "cells (prows (winsorize_panel p) ! 1) ''ROA'' = Some 99"
    by (simp add: p_def)
  from z o show ?thesis unfolding p_def by (rule conjI)
qed

lemma dropna_map_option: "dropna (map (map_option f) s) = map f (dropna s)"
  unfolding dropna_def by (induction s) (simp_all add: List.map_filter_simps split: option.split)

lemma clamp_fixed:
  fixes l u z :: real
  assumes "l \<le> z" "z \<le> u"
  shows "max l (min u z) = z"
  using assms by simp

lemma clamp_range:
  fixes l u z :: real
  assumes "l \<le> u"
  shows "l \<le> max l (min u z)" "max l (min u z) \<le> u"
  using assms by simp_all

lemma winsorize_twice:
  assumes "col \<in> set RATIO_NAMES" "col \<in> set (pcolumns p)"
    and "xs = sort (List.map_filter (\<lambda>r. cells r col) (prows p))" "xs \<noteq> []"
    and "lower = interpolate xs (1 / 100 * real (length xs - 1))"
    and "upper = interpolate xs (99 / 100 * real (length xs - 1))"
  shows "\<forall>i < length (prows p).
           \<exists>l' u'. lower \<le> l' \<and> l' \<le> u' \<and> u' \<le> upper
             \<and> cells (prows (winsorize_panel (winsorize_panel p)) ! i) col
                 = map_option (\<lambda>x. max l' (min u' x)) (cells (prows (winsorize_panel p) ! i) col)"
proof -
  let ?w = "winsorize_panel p"
  let ?f = "\<lambda>x. max lower (min upper x)"
  define ys where "ys = sort (List.map_filter (\<lambda>r. cells r col) (prows ?w))"
  define l' where "l' = interpolate ys (1 / 100 * real (length ys - 1))"
  define u' where "u' = interpolate ys (99 / 100 * real (length ys - 1))"
  note c = winsorize_panel_clipped [OF assms(1-4), folded assms(5,6)]
  note r = winsorize_panel_rows [of p]
  have ys: "ys = sort (map ?f (dropna (get_column p col)))"
    unfolding ys_def dropna_column [symmetric] c(2) dropna_map_option by (rule refl)
  have xs: "xs = sort (dropna (get_column p col))"
    unfolding assms(3) dropna_column by (rule refl)
  have len: "length ys = length xs" unfolding ys xs by simp
  with assms(4) have ne: "ys \<noteq> []" by (metis length_0_conv)
  have rng: "\<forall>y \<in> set ys. lower \<le> y \<and> y \<le> upper"
    unfolding ys using clamp_range [OF c(1)] by auto
  have srt: "sorted ys" unfolding ys by simp
  have h1: "(0 :: real) \<le> 1 / 100 * real (length ys - 1)" by simp
  have h2: "(1 / 100 :: real) * real (length ys - 1) \<le> 99 / 100 * real (length ys - 1)"
    by (intro mult_right_mono) simp_all
  have h3: "(99 / 100 :: real) * real (length ys - 1) \<le> real (length ys - 1)"
    by (intro mult_left_le_one_le) simp_all
  have h4: "(0 :: real) \<le> 99 / 100 * real (length ys - 1)" by simp
  have h5: "(1 / 100 :: real) * real (length ys - 1) \<le> real (length ys - 1)"
    using h2 h3 by (rule order_trans)
  have a: "lower \<le> l'" unfolding l'_def by (rule interpolate_within(1) [OF srt ne h1 h5 rng])
  have b: "u' \<le> upper" unfolding u'_def by (rule interpolate_within(2) [OF srt ne h4 h3 rng])
  have cols: "col \<in> set (pcolumns ?w)" unfolding r(3) by (rule assms(2))
  note c2 = winsorize_panel_clipped [OF assms(1) cols ys_def ne, folded l'_def u'_def]
  have "cells (prows (winsorize_panel ?w) ! i) col
          = map_option (\<lambda>x. max l' (min u' x)) (cells (prows ?w ! i) col)"
    if "i < length (prows p)" for i
  proof -
    from that r(4) have i: "i < length (prows ?w)" by simp
    with winsorize_panel_rows(4) [of ?w] have i': "i < length (prows (winsorize_panel ?w))" by simp
    have "cells (prows (winsorize_panel ?w) ! i) col = get_column (winsorize_panel ?w) col ! i"
      using i' by (simp add: get_column_def)
    also have "\<dots> = map_option (\<lambda>x. max l' (min u' x)) (cells (prows ?w ! i) col)"
      unfolding c2(2) using i by (simp add: get_column_def)
    finally show ?thesis .
  qed
  with a b c2(1) show ?thesis by blast
qed

lemma map_filter_all_none: "(\<And>x. x \<in> set xs \<Longrightarrow> f x = None) \<Longrightarrow> List.map_filter f xs = []"
  by (induction xs) (simp_all add: List.map_filter_simps)

lemma map_option_all_nan: "set ns \<subseteq> {None} \<Longrightarrow> map (map_option f) ns = ns"
  by (induction ns) simp_all

lemma clip_col_two_values:
  fixes a b :: real
  assumes "a \<le> b" "set ns \<subseteq> {None}"
  shows "clip_col (1 / 100) (99 / 100) (Some a # Some b # ns)
     = Some (a + 1 / 100 * (b - a)) # Some (a + 99 / 100 * (b - a)) # ns"
proof -
  have d: "dropna (Some a # Some b # ns) = [a, b]"
    using dropna_all_nan [OF assms(2)] by (simp add: dropna_def List.map_filter_simps)
  have s: "sort [a, b] = [a, b]" using assms(1) by simp
  have ne: "dropna (Some a # Some b # ns) \<noteq> []" unfolding d by simp
  have lo: "interpolate [a, b] (1 / 100 * real (length [a, b] - 1)) = a + 1 / 100 * (b - a)"
    by simp
  have hi: "interpolate [a, b] (99 / 100 * real (length [a, b] - 1)) = a + 99 / 100 * (b - a)"
    by simp
  have "clip_col (1 / 100) (99 / 100) (Some a # Some b # ns)
      = map (map_option (\<lambda>x. max (a + 1 / 100 * (b - a)) (min (a + 99 / 100 * (b - a)) x)))
          (Some a # Some b # ns)"
    using clip_col_values(2) [OF ne, of "1 / 100" "99 / 100"] unfolding d s lo hi by simp
  also have "\<dots> = Some (a + 1 / 100 * (b - a)) # Some (a + 99 / 100 * (b - a)) # ns"
  proof -
    have o: "a \<le> a + 1 / 100 * (b - a)" "a + 1 / 100 * (b - a) \<le> a + 99 / 100 * (b - a)"
      "a + 99 / 100 * (b - a) \<le> b" "a \<le> a + 99 / 100 * (b - a)"
      using assms(1) by (simp_all add: field_simps)
    have x: "max (a + 1 / 100 * (b - a)) (min (a + 99 / 100 * (b - a)) a) = a + 1 / 100 * (b - a)"
      using o(1,4) by (simp only: min_absorb2 max_absorb1)
    have y: "max (a + 1 / 100 * (b - a)) (min (a + 99 / 100 * (b - a)) b) = a + 99 / 100 * (b - a)"
      using o(2,3) by (simp only: min_absorb1 max_absorb2)
    show ?thesis unfolding list.map option.map x y map_option_all_nan [OF assms(2)] by (rule refl)
  qed
  finally show ?thesis .
qed

lemma expected_unfold:
  "EXPECTED_QTR_INDEX = (2000, 1) # (2000, 2) # map period_of_ordinal [8002..<8100]"
proof -
  have "[8000..<8100] = 8000 # 8001 # [8002..<8100]"
    by (simp add: upt_conv_Cons)
  then show ?thesis
    unfolding EXPECTED_QTR_INDEX_def build_expected_quarters_def period_range_def expected_bounds
    by (simp add: period_of_ordinal_def)
qed

lemma later_quarters:
  assumes "q \<in> set (map period_of_ordinal [8002..<8100])"
  shows "q \<noteq> (2000, 1)" "q \<noteq> (2000, 2)"
proof -
  from assms have "q \<in> period_of_ordinal ` {8002..<8100}" unfolding set_map set_upt .
  then obtain n where n: "8002 \<le> n" "q = (n div 4, n mod 4 + 1)"
    unfolding period_of_ordinal_def by auto
  show "q \<noteq> (2000, 1)"
  proof
    assume "q = (2000, 1)"
    with n have "n div 4 = 2000" "n mod 4 = 0" by simp_all
    with n(1) show False by presburger
  qed
  show "q \<noteq> (2000, 2)"
  proof
    assume "q = (2000, 2)"
    with n have "n div 4 = 2000" "n mod 4 = 1" by simp_all
    with n(1) show False by presburger
  qed
qed

lemma cell_of_column: "i < length (prows p) \<Longrightarrow> cells (prows p ! i) col = get_column p col ! i"
  by (simp add: get_column_def)

theorem winsorize_not_idempotent:
  "cells (prows (winsorize_panel
       \<lparr>pcolumns = RATIO_NAMES,
        prows = map (\<lambda>q. \<lparr>ticker = ''AAA'', quarter = period_str q,
                           cells = (\<lambda>col. if q = (2000, 1) then Some 0
                                           else if q = (2000, 2) then Some 100 else None)\<rparr>)
                  EXPECTED_QTR_INDEX\<rparr>) ! 0) ''ROA'' = Some 1
   \<and> cells (prows (winsorize_panel (winsorize_panel
       \<lparr>pcolumns = RATIO_NAMES,
        prows = map (\<lambda>q. \<lparr>ticker = ''AAA'', quarter = period_str q,
                           cells = (\<lambda>col. if q = (2000, 1) then Some 0
                                           else if q = (2000, 2) then Some 100 else None)\<rparr>)
                  EXPECTED_QTR_INDEX\<rparr>)) ! 0) ''ROA'' = Some (99 / 50)"
proof -
  define g :: "period \<Rightarrow> float64"
    where "g = (\<lambda>q. if q = (2000, 1) then Some 0 else if q = (2000, 2) then Some 100 else None)"
  define p where "p = \<lparr>pcolumns = RATIO_NAMES,
        prows = map (\<lambda>q. \<lparr>ticker = ''AAA'', quarter = period_str q, cells = (\<lambda>col. g q)\<rparr>)
                  EXPECTED_QTR_INDEX\<rparr>"
  define ns where "ns = map g (map period_of_ordinal [8002..<8100])"
  have ns: "set ns \<subseteq> {None}"
    unfolding ns_def g_def using later_quarters by auto
  have c0: "get_column p ''ROA'' = Some 0 # Some 100 # ns"
  proof -
    have "get_column p ''ROA'' = map g EXPECTED_QTR_INDEX"
      by (simp add: get_column_def p_def comp_def)
    also have "\<dots> = g (2000, 1) # g (2000, 2) # ns"
      unfolding ns_def by (subst expected_unfold) simp
    finally show ?thesis by (simp add: g_def)
  qed
  have col: "''ROA'' \<in> set (pcolumns p)" by (simp add: p_def roa_is_ratio)
  have col': "''ROA'' \<in> set (pcolumns (winsorize_panel p))"
    unfolding winsorize_panel_rows(3) by (rule col)
  have c1: "get_column (winsorize_panel p) ''ROA'' = Some 1 # Some 99 # ns"
    unfolding winsorize_panel_column [OF roa_is_ratio col] c0
    using clip_col_two_values [of 0 100 ns] ns by simp
  have c2: "get_column (winsorize_panel (winsorize_panel p)) ''ROA'' = Some (99 / 50) # Some (4901 / 50) # ns"
    unfolding winsorize_panel_column [OF roa_is_ratio col'] c1
    using clip_col_two_values [of 1 99 ns] ns by simp
  have len: "0 < length (prows p)" by (simp add: p_def expected_length)
  then have len1: "0 < length (prows (winsorize_panel p))" by (simp add: winsorize_panel_rows(4))
  then have len2: "0 < length (prows (winsorize_panel (winsorize_panel p)))"
    by (simp add: winsorize_panel_rows(4))
  have a: "cells (prows (winsorize_panel p) ! 0) ''ROA'' = Some 1"
    unfolding cell_of_column [OF len1] c1 by simp
  have b: "cells (prows (winsorize_panel (winsorize_panel p)) ! 0) ''ROA'' = Some (99 / 50)"
    unfolding cell_of_column [OF len2] c2 by simp
  from a b show ?thesis unfolding p_def g_def by (rule conjI)
qed

text \<open>
  Claim C6, as amended. A second \<open>winsorize_panel\<close> recomputes the percentiles from the
  clipped column, so it is not the identity; what holds for every panel and every ratio
  column is: clipping the winsorized column again to the bounds of the first application
  changes nothing; a second application keeps missing values missing; and it leaves every
  non-missing value within the 1st and 99th percentile of the column before the first
  application.
\<close>

theorem winsorize_second_application:
  assumes "col \<in> set RATIO_NAMES" "col \<in> set (pcolumns p)"
    and "xs = sort (List.map_filter (\<lambda>r. cells r col) (prows p))"
    and "lower = interpolate xs (1 / 100 * real (length xs - 1))"
    and "upper = interpolate xs (99 / 100 * real (length xs - 1))"
  shows "(\<forall>i < length (prows p).
            map_option (\<lambda>x. max lower (min upper x)) (cells (prows (winsorize_panel p) ! i) col)
              = cells (prows (winsorize_panel p) ! i) col)
     \<and> (\<forall>i < length (prows p).
            (cells (prows (winsorize_panel (winsorize_panel p)) ! i) col = None)
              = (cells (prows p ! i) col = None))
     \<and> (xs \<noteq> [] \<longrightarrow>
          (\<forall>i < length (prows p). \<forall>x.
             cells (prows (winsorize_panel (winsorize_panel p)) ! i) col = Some x
               \<longrightarrow> lower \<le> x \<and> x \<le> upper))"
proof (cases "xs = []")
  case True
  then have e: "List.map_filter (\<lambda>r. cells r col) (prows p) = []"
    unfolding assms(3) by (metis length_sort length_0_conv)
  let ?w = "winsorize_panel p"
  note k = winsorize_keeps_nan_column [OF assms(1,2) e]
  have cols: "col \<in> set (pcolumns ?w)" unfolding winsorize_panel_rows(3) by (rule assms(2))
  have len: "length (prows ?w) = length (prows p)" by (rule winsorize_panel_rows(4))
  have "List.map_filter (\<lambda>r. cells r col) (prows ?w) = []"
  proof (rule map_filter_all_none)
    fix r assume "r \<in> set (prows ?w)"
    then obtain i where "i < length (prows ?w)" "r = prows ?w ! i" by (auto simp add: in_set_conv_nth)
    with k(2) [of i] len show "cells r col = None" by simp
  qed
  note k2 = winsorize_keeps_nan_column [OF assms(1) cols this, unfolded len]
  from True k k2(2) show ?thesis by simp
next
  case False
  let ?w = "winsorize_panel p"
  note c = winsorize_clips_column [OF assms(1,2,3) False assms(4,5)]
  from c have lu: "lower \<le> upper" by simp
  from c have first: "\<And>i. i < length (prows p) \<Longrightarrow> cells (prows ?w ! i) col
            = map_option (\<lambda>x. max lower (min upper x)) (cells (prows p ! i) col)" by simp
  note t = winsorize_twice [OF assms(1,2,3) False assms(4,5), rule_format]
  have one: "map_option (\<lambda>x. max lower (min upper x)) (cells (prows ?w ! i) col) = cells (prows ?w ! i) col"
    if "i < length (prows p)" for i
  proof (cases "cells (prows p ! i) col")
    case None
    with first [OF that] show ?thesis by simp
  next
    case (Some y)
    with first [OF that] have "cells (prows ?w ! i) col = Some (max lower (min upper y))" by simp
    moreover have "max lower (min upper (max lower (min upper y))) = max lower (min upper y)"
      by (rule clamp_fixed [OF clamp_range [OF lu]])
    ultimately show ?thesis by simp
  qed
  have two: "(cells (prows (winsorize_panel ?w) ! i) col = None) = (cells (prows p ! i) col = None)"
    if "i < length (prows p)" for i
    using t [OF that] first [OF that] by auto
  have three: "lower \<le> x \<and> x \<le> upper"
    if "i < length (prows p)" "cells (prows (winsorize_panel ?w) ! i) col = Some x" for i x
  proof -
    from t [OF that(1)] obtain l' u' where b: "lower \<le> l'" "l' \<le> u'" "u' \<le> upper"
      and e: "cells (prows (winsorize_panel ?w) ! i) col
                 = map_option (\<lambda>x. max l' (min u' x)) (cells (prows ?w ! i) col)" by blast
    from e that(2) have "map_option (\<lambda>x. max l' (min u' x)) (cells (prows ?w ! i) col) = Some x"
      by simp
    then obtain y where "x = max l' (min u' y)" by (cases "cells (prows ?w ! i) col") auto
    moreover note clamp_range [OF b(2), of y] b(1,3)
    ultimately show ?thesis by linarith
  qed
  from one two three show ?thesis by blast
qed

theorem winsorize_second_application_witness:
  "map_option (\<lambda>x. max 2 (min 198 x))
     (cells (prows (winsorize_panel
       \<lparr>pcolumns = RATIO_NAMES,
        prows = [\<lparr>ticker = ''AAA'', quarter = ''2000Q1'', cells = (\<lambda>col. Some 0)\<rparr>,
                 \<lparr>ticker = ''AAA'', quarter = ''2000Q2'', cells = (\<lambda>col. Some 200)\<rparr>]\<rparr>) ! 0) ''ROE'')
   = cells (prows (winsorize_panel
       \<lparr>pcolumns = RATIO_NAMES,
        prows = [\<lparr>ticker = ''AAA'', quarter = ''2000Q1'', cells = (\<lambda>col. Some 0)\<rparr>,
                 \<lparr>ticker = ''AAA'', quarter = ''2000Q2'', cells = (\<lambda>col. Some 200)\<rparr>]\<rparr>) ! 0) ''ROE''"
proof -
  define p where "p = \<lparr>pcolumns = RATIO_NAMES,
        prows = [\<lparr>ticker = ''AAA'', quarter = ''2000Q1'', cells = (\<lambda>col. Some (0 :: real))\<rparr>,
                 \<lparr>ticker = ''AAA'', quarter = ''2000Q2'', cells = (\<lambda>col. Some (200 :: real))\<rparr>]\<rparr>"
  have a0: "''ROE'' \<in> set RATIO_NAMES" by (simp add: RATIO_NAMES_def RATIOS_def mk_ratio_def)
  have a1: "''ROE'' \<in> set (pcolumns p)" by (simp add: p_def a0)
  have a2: "[0, 200 :: real] = sort (List.map_filter (\<lambda>r. cells r ''ROE'') (prows p))"
    by (simp add: p_def List.map_filter_simps)
  have a4: "(2 :: real) = interpolate [0, 200] (1 / 100 * real (length [0, 200 :: real] - 1))"
    by simp
  have a5: "(198 :: real) = interpolate [0, 200] (99 / 100 * real (length [0, 200 :: real] - 1))"
    by simp
  have l: "0 < length (prows p)" by (simp add: p_def)
  from conjunct1 [OF winsorize_second_application [OF a0 a1 a2 a4 a5], rule_format, OF l]
  show ?thesis unfolding p_def .
qed

section \<open>Properties of the quarter alignment\<close>

lemma drop_duplicates_last_subset: "set (drop_duplicates_last k xs) \<subseteq> set xs"
  by (induction xs) auto

lemma drop_duplicates_last_keys: "k ` set (drop_duplicates_last k xs) = k ` set xs"
  by (induction xs) auto

lemma drop_duplicates_last_distinct: "distinct (map k (drop_duplicates_last k xs))"
proof (induction xs)
  case Nil
  show ?case by simp
next
  case (Cons a xs)
  show ?case
  proof (cases "k a \<in> k ` set xs")
    case True
    with Cons show ?thesis by simp
  next
    case False
    then have "k a \<notin> k ` set (drop_duplicates_last k xs)"
      unfolding drop_duplicates_last_keys .
    with False Cons show ?thesis by simp
  qed
qed

lemma drop_duplicates_last_latest:
  fixes dt :: "'a \<Rightarrow> 'd :: linorder"
  assumes "sorted (map dt xs)" "x \<in> set (drop_duplicates_last k xs)" "y \<in> set xs" "k y = k x"
  shows "dt y \<le> dt x"
  using assms
proof (induction xs)
  case Nil
  then show ?case by simp
next
  case (Cons a xs)
  from Cons.prems(1) have srt: "sorted (map dt xs)" and first: "\<And>z. z \<in> set xs \<Longrightarrow> dt a \<le> dt z"
    by simp_all
  show ?case
  proof (cases "k a \<in> k ` set xs")
    case True
    with Cons.prems(2) have x: "x \<in> set (drop_duplicates_last k xs)" by simp
    then have xin: "x \<in> set xs" using drop_duplicates_last_subset by fast
    show ?thesis
    proof (cases "y = a")
      case True
      with first [OF xin] show ?thesis by simp
    next
      case False
      with Cons.prems(3) have "y \<in> set xs" by simp
      from Cons.IH [OF srt x this Cons.prems(4)] show ?thesis .
    qed
  next
    case False
    show ?thesis
    proof (cases "x = a")
      case True
      have "y = a"
      proof (rule ccontr)
        assume "y \<noteq> a"
        with Cons.prems(3) have "y \<in> set xs" by simp
        then have "k y \<in> k ` set xs" by simp
        with Cons.prems(4) True False show False by simp
      qed
      with True show ?thesis by simp
    next
      case xa: False
      with Cons.prems(2) False have x: "x \<in> set (drop_duplicates_last k xs)" by simp
      then have xin: "x \<in> set xs" using drop_duplicates_last_subset by fast
      have "y \<noteq> a"
      proof
        assume "y = a"
        with Cons.prems(4) have "k a = k x" by simp
        with xin have "k a \<in> k ` set xs" by simp
        with False show False by simp
      qed
      with Cons.prems(3) have "y \<in> set xs" by simp
      from Cons.IH [OF srt x this Cons.prems(4)] show ?thesis .
    qed
  qed
qed

lemma sorts_by_date_set: "sorts_by_date sv \<Longrightarrow> set (sv xs) = set xs"
  unfolding sorts_by_date_def by (metis mset_eq_setD)

lemma sorts_by_date_sorted: "sorts_by_date sv \<Longrightarrow> sorted (map (\<lambda>(q, d, r). d) (sv xs))"
  unfolding sorts_by_date_def by blast

lemma stable_sort_sorts_by_date: "sorts_by_date (sort_key (\<lambda>(q, d, r). d))"
  unfolding sorts_by_date_def by simp

lemma set_dated:
  "set (List.map_filter (\<lambda>r. map_option (\<lambda>d. (d, r)) (rdate r)) rs)
     = {(d, r). r \<in> set rs \<and> rdate r = Some d}"
  by (induction rs) (auto simp add: List.map_filter_simps split: option.splits)

lemma load_source_Some:
  assumes "load_source sv fs t src = Inr (Some tbl)" "map_of (fs src) t = Some (Csv df)"
  shows "''date'' \<in> set (rcolumns df)" "rrows df \<noteq> []"
    and "columns tbl = [c \<leftarrow> rcolumns df. c \<notin> set (''quarter'' # META_COLS)]"
    and "rows tbl = map (\<lambda>(q, d, r). (q, \<lambda>c. to_numeric (rcells r c))) (kept_rows sv df)"
proof -
  from assms have g: "\<not> (''date'' \<notin> set (rcolumns df) \<or> length (rrows df) = 0)"
    unfolding load_source_def by (auto split: if_splits)
  then show "''date'' \<in> set (rcolumns df)" "rrows df \<noteq> []" by simp_all
  from assms g have "tbl = \<lparr>columns = [c \<leftarrow> rcolumns df. c \<notin> set (''quarter'' # META_COLS)],
       rows = map (\<lambda>(q, d, r). (q, \<lambda>c. to_numeric (rcells r c))) (kept_rows sv df)\<rparr>"
    unfolding load_source_def Let_def by simp
  then show "columns tbl = [c \<leftarrow> rcolumns df. c \<notin> set (''quarter'' # META_COLS)]"
    and "rows tbl = map (\<lambda>(q, d, r). (q, \<lambda>c. to_numeric (rcells r c))) (kept_rows sv df)"
    by simp_all
qed

lemma kept_rows_set:
  assumes "sorts_by_date sv"
  shows "set (kept_rows sv df) \<subseteq>
     {(q, d, r). r \<in> set (rrows df) \<and> rdate r = Some d
        \<and> YEAR_START \<le> year d \<and> year d \<le> YEAR_END \<and> q = to_period d}"
proof -
  have "set (kept_rows sv df) \<subseteq> set (sv (map (\<lambda>(d, r). (to_period d, d, r))
       [(d, r) \<leftarrow> List.map_filter (\<lambda>r. map_option (\<lambda>d. (d, r)) (rdate r)) (rrows df).
          YEAR_START \<le> year d \<and> year d \<le> YEAR_END]))"
    using drop_duplicates_last_subset by (simp only: set_sort)
  also have "\<dots> \<subseteq> {(q, d, r). r \<in> set (rrows df) \<and> rdate r = Some d
        \<and> YEAR_START \<le> year d \<and> year d \<le> YEAR_END \<and> q = to_period d}"
    unfolding sorts_by_date_set [OF assms] by (auto simp add: set_dated)
  finally show ?thesis .
qed

lemma kept_rows_index:
  shows "distinct (map fst (kept_rows sv df))" "sorted (map fst (kept_rows sv df))"
proof -
  let ?l = "drop_duplicates_last fst (sv (map (\<lambda>(d, r). (to_period d, d, r))
       [(d, r) \<leftarrow> List.map_filter (\<lambda>r. map_option (\<lambda>d. (d, r)) (rdate r)) (rrows df).
          YEAR_START \<le> year d \<and> year d \<le> YEAR_END]))"
  have "mset (map fst (sort_key fst ?l)) = mset (map fst ?l)" by simp
  then have "distinct (map fst (sort_key fst ?l)) = distinct (map fst ?l)"
    by (rule mset_eq_imp_distinct_iff)
  then show "distinct (map fst (kept_rows sv df))"
    using drop_duplicates_last_distinct [of fst] by simp
  show "sorted (map fst (kept_rows sv df))" by (rule sorted_sort_key)
qed

lemma kept_rows_quarters:
  assumes "sorts_by_date sv" "r \<in> set (rrows df)" "rdate r = Some d"
    "YEAR_START \<le> year d" "year d \<le> YEAR_END"
  shows "to_period d \<in> fst ` set (kept_rows sv df)"
proof -
  let ?qs = "map (\<lambda>(d, r). (to_period d, d, r))
       [(d, r) \<leftarrow> List.map_filter (\<lambda>r. map_option (\<lambda>d. (d, r)) (rdate r)) (rrows df).
          YEAR_START \<le> year d \<and> year d \<le> YEAR_END]"
  have "(to_period d, d, r) \<in> set ?qs" using assms(2-5) by (auto simp add: set_dated)
  then have "(to_period d, d, r) \<in> set (sv ?qs)" unfolding sorts_by_date_set [OF assms(1)] .
  then have "to_period d \<in> fst ` set (sv ?qs)" by force
  then have "to_period d \<in> fst ` set (drop_duplicates_last fst (sv ?qs))"
    unfolding drop_duplicates_last_keys .
  then show ?thesis by (simp only: set_sort)
qed

lemma kept_rows_latest:
  assumes "sorts_by_date sv" "(q, d, r) \<in> set (kept_rows sv df)"
    "r' \<in> set (rrows df)" "rdate r' = Some d'" "to_period d' = q"
    "YEAR_START \<le> year d'" "year d' \<le> YEAR_END"
  shows "d' \<le> d"
proof -
  let ?qs = "map (\<lambda>(d, r). (to_period d, d, r))
       [(d, r) \<leftarrow> List.map_filter (\<lambda>r. map_option (\<lambda>d. (d, r)) (rdate r)) (rrows df).
          YEAR_START \<le> year d \<and> year d \<le> YEAR_END]"
  from assms(2) have x: "(q, d, r) \<in> set (drop_duplicates_last fst (sv ?qs))" by (simp only: set_sort)
  have "(q, d', r') \<in> set ?qs" using assms(3-7) by (auto simp add: set_dated)
  then have y: "(q, d', r') \<in> set (sv ?qs)" unfolding sorts_by_date_set [OF assms(1)] .
  from drop_duplicates_last_latest [OF sorts_by_date_sorted [OF assms(1)] x y]
  show ?thesis by simp
qed

lemma to_numeric_cases:
  "to_numeric v = (case v of Num x \<Rightarrow> Some x | Text s \<Rightarrow> None | Blank \<Rightarrow> None)"
  by (cases v) simp_all

text \<open>
  Claim C8. For a file that parses, has a date column and at least one row, \<open>_load_source\<close>
  returns a table with one row per quarter. Every row of the table comes from a record
  with a parseable date in the years 2000 to 2024, carries the quarter of that date and
  the numeric values of that record, and no record of the same quarter has a later date:
  the record with the latest date is the one kept (any one of them when several share
  that date, since the sort by date is not stable). Every quarter in which such a record
  exists has its row; records with an unparseable date give no row.
\<close>

theorem load_source_keeps_latest:
  assumes "sorts_by_date sv" "map_of (fs src) t = Some (Csv df)"
    "''date'' \<in> set (rcolumns df)" "rrows df \<noteq> []"
  shows "\<exists>tbl. load_source sv fs t src = Inr (Some tbl)
     \<and> distinct (map fst (rows tbl))
     \<and> (\<forall>(q, v) \<in> set (rows tbl). \<exists>r \<in> set (rrows df). \<exists>y m dd.
          rdate r = Some (y, m, dd) \<and> 2000 \<le> y \<and> y \<le> 2024 \<and> q = (y, (m - 1) div 3 + 1)
        \<and> (\<forall>col. v col = (case rcells r col of Num x \<Rightarrow> Some x | Text s \<Rightarrow> None | Blank \<Rightarrow> None))
        \<and> (\<forall>r' \<in> set (rrows df). \<forall>m' d'.
              rdate r' = Some (y, m', d') \<and> (m' - 1) div 3 = (m - 1) div 3
                \<longrightarrow> m' < m \<or> (m' = m \<and> d' \<le> dd)))
     \<and> (\<forall>r \<in> set (rrows df). \<forall>y m dd.
          rdate r = Some (y, m, dd) \<and> 2000 \<le> y \<and> y \<le> 2024
            \<longrightarrow> (y, (m - 1) div 3 + 1) \<in> fst ` set (rows tbl))"
proof -
  define tbl where "tbl = \<lparr>columns = [c \<leftarrow> rcolumns df. c \<notin> set (''quarter'' # META_COLS)],
       rows = map (\<lambda>(q, d, r). (q, \<lambda>c. to_numeric (rcells r c))) (kept_rows sv df)\<rparr>"
  have ld: "load_source sv fs t src = Inr (Some tbl)"
    unfolding load_source_def Let_def tbl_def using assms(2,3,4) by simp
  have rows: "rows tbl = map (\<lambda>(q, d, r). (q, \<lambda>c. to_numeric (rcells r c))) (kept_rows sv df)"
    by (simp add: tbl_def)
  have ix: "map fst (rows tbl) = map fst (kept_rows sv df)"
    unfolding rows by (simp add: case_prod_unfold comp_def)
  have a: "distinct (map fst (rows tbl))" unfolding ix by (rule kept_rows_index(1))
  have b: "\<exists>r \<in> set (rrows df). \<exists>y m dd.
          rdate r = Some (y, m, dd) \<and> 2000 \<le> y \<and> y \<le> 2024 \<and> q = (y, (m - 1) div 3 + 1)
        \<and> (\<forall>col. v col = (case rcells r col of Num x \<Rightarrow> Some x | Text s \<Rightarrow> None | Blank \<Rightarrow> None))
        \<and> (\<forall>r' \<in> set (rrows df). \<forall>m' d'.
              rdate r' = Some (y, m', d') \<and> (m' - 1) div 3 = (m - 1) div 3
                \<longrightarrow> m' < m \<or> (m' = m \<and> d' \<le> dd))"
    if "(q, v) \<in> set (rows tbl)" for q v
  proof -
    from that obtain d r where k: "(q, d, r) \<in> set (kept_rows sv df)"
      and v: "v = (\<lambda>c. to_numeric (rcells r c))"
      unfolding rows by auto
    obtain y m dd where d: "d = (y, m, dd)" by (cases d)
    from kept_rows_set [OF assms(1)] k have r: "r \<in> set (rrows df)" "rdate r = Some d"
      and yr: "YEAR_START \<le> year d" "year d \<le> YEAR_END" and q: "q = to_period d"
      by auto
    have later: "m' < m \<or> (m' = m \<and> d' \<le> dd)"
      if r': "r' \<in> set (rrows df)" "rdate r' = Some (y, m', d')" "(m' - 1) div 3 = (m - 1) div 3"
      for r' m' d'
    proof -
      have "to_period (y, m', d') = q" using r'(3) unfolding q d by (simp add: to_period_def year_def month_def)
      moreover have "YEAR_START \<le> year (y, m', d')" "year (y, m', d') \<le> YEAR_END"
        using yr unfolding d by (simp_all add: year_def)
      ultimately have "(y, m', d') \<le> d" using kept_rows_latest [OF assms(1) k r'(1,2)] by simp
      then show ?thesis unfolding d by (auto simp add: less_eq_prod_def)
    qed
    have "rdate r = Some (y, m, dd) \<and> 2000 \<le> y \<and> y \<le> 2024 \<and> q = (y, (m - 1) div 3 + 1)"
      using r(2) yr q unfolding d
      by (simp add: to_period_def year_def month_def YEAR_START_def YEAR_END_def)
    moreover have "\<forall>col. v col = (case rcells r col of Num x \<Rightarrow> Some x | Text s \<Rightarrow> None | Blank \<Rightarrow> None)"
      unfolding v by (simp add: to_numeric_cases)
    ultimately show ?thesis using r(1) later by blast
  qed
  have c: "(y, (m - 1) div 3 + 1) \<in> fst ` set (rows tbl)"
    if "r \<in> set (rrows df)" "rdate r = Some (y, m, dd)" "2000 \<le> y" "y \<le> 2024" for r y m dd
  proof -
    have "to_period (y, m, dd) \<in> fst ` set (kept_rows sv df)"
      using that by (intro kept_rows_quarters [OF assms(1)])
        (simp_all add: year_def YEAR_START_def YEAR_END_def)
    then show ?thesis unfolding set_map [symmetric] ix
      by (simp add: to_period_def year_def month_def)
  qed
  from ld a b c show ?thesis by blast
qed

theorem load_source_keeps_latest_witness:
  "\<exists>tbl v. load_source (sort_key (\<lambda>(q, d, r). d))
       (\<lambda>src. [(''AAA'', Csv \<lparr>rcolumns = [''date'', ''netIncome''],
           rrows = [\<lparr>rdate = Some (2020, 3, 31), rcells = (\<lambda>col. Num 7)\<rparr>,
                    \<lparr>rdate = Some (2020, 1, 15), rcells = (\<lambda>col. Num 5)\<rparr>,
                    \<lparr>rdate = None, rcells = (\<lambda>col. Num 9)\<rparr>,
                    \<lparr>rdate = Some (1999, 12, 31), rcells = (\<lambda>col. Num 11)\<rparr>]\<rparr>)])
       ''AAA'' ''income'' = Inr (Some tbl)
     \<and> ((2020, 1), v) \<in> set (rows tbl) \<and> v ''netIncome'' = Some 7"
proof -
  define r1 where "r1 = \<lparr>rdate = Some (2020 :: nat, 3 :: nat, 31 :: nat), rcells = (\<lambda>col :: string. Num 7)\<rparr>"
  define r2 where "r2 = \<lparr>rdate = Some (2020 :: nat, 1 :: nat, 15 :: nat), rcells = (\<lambda>col :: string. Num 5)\<rparr>"
  define r3 where "r3 = \<lparr>rdate = None :: date option, rcells = (\<lambda>col :: string. Num 9)\<rparr>"
  define r4 where "r4 = \<lparr>rdate = Some (1999 :: nat, 12 :: nat, 31 :: nat), rcells = (\<lambda>col :: string. Num 11)\<rparr>"
  define df where "df = \<lparr>rcolumns = [''date'', ''netIncome''], rrows = [r1, r2, r3, r4]\<rparr>"
  define fs :: filesystem where "fs = (\<lambda>src. [(''AAA'', Csv df)])"
  have h2: "map_of (fs ''income'') ''AAA'' = Some (Csv df)" by (simp add: fs_def)
  have h3: "''date'' \<in> set (rcolumns df)" by (simp add: df_def)
  have h4: "rrows df \<noteq> []" by (simp add: df_def)
  from load_source_keeps_latest [of "sort_key (\<lambda>(q, d, r). d)" fs "''income''" "''AAA''" df,
      OF stable_sort_sorts_by_date h2 h3 h4]
  obtain tbl where ld: "load_source (sort_key (\<lambda>(q, d, r). d)) fs ''AAA'' ''income'' = Inr (Some tbl)"
    and b: "\<forall>(q, v) \<in> set (rows tbl). \<exists>r \<in> set (rrows df). \<exists>y m dd.
          rdate r = Some (y, m, dd) \<and> 2000 \<le> y \<and> y \<le> 2024 \<and> q = (y, (m - 1) div 3 + 1)
        \<and> (\<forall>col. v col = (case rcells r col of Num x \<Rightarrow> Some x | Text s \<Rightarrow> None | Blank \<Rightarrow> None))
        \<and> (\<forall>r' \<in> set (rrows df). \<forall>m' d'.
              rdate r' = Some (y, m', d') \<and> (m' - 1) div 3 = (m - 1) div 3
                \<longrightarrow> m' < m \<or> (m' = m \<and> d' \<le> dd))"
    and c: "\<forall>r \<in> set (rrows df). \<forall>y m dd.
          rdate r = Some (y, m, dd) \<and> 2000 \<le> y \<and> y \<le> 2024
            \<longrightarrow> (y, (m - 1) div 3 + 1) \<in> fst ` set (rows tbl)"
    by (elim exE conjE)
  have "r2 \<in> set (rrows df)" "rdate r2 = Some (2020, 1, 15)" by (simp_all add: df_def r2_def)
  with c have "(2020, (1 - 1) div 3 + 1) \<in> fst ` set (rows tbl)" by fastforce
  then obtain v where v: "((2020, 1), v) \<in> set (rows tbl)" by force
  from b v obtain r y m dd where r: "r \<in> set (rrows df)" "rdate r = Some (y, m, dd)"
    and q: "(2020, 1) = (y, (m - 1) div 3 + 1)"
    and cells: "\<forall>col. v col = (case rcells r col of Num x \<Rightarrow> Some x | Text s \<Rightarrow> None | Blank \<Rightarrow> None)"
    and latest: "\<forall>r' \<in> set (rrows df). \<forall>m' d'.
              rdate r' = Some (y, m', d') \<and> (m' - 1) div 3 = (m - 1) div 3
                \<longrightarrow> m' < m \<or> (m' = m \<and> d' \<le> dd)"
    by fast
  from r q have "r = r1 \<or> r = r2" by (auto simp add: df_def r1_def r2_def r3_def r4_def)
  moreover have "r \<noteq> r2"
  proof
    assume e: "r = r2"
    with r(2) have "y = 2020" "m = 1" "dd = 15" by (simp_all add: r2_def)
    moreover have "r1 \<in> set (rrows df)" "rdate r1 = Some (2020, 3, 31)" by (simp_all add: df_def r1_def)
    ultimately show False using latest by fastforce
  qed
  ultimately have "r = r1" by simp
  with cells have "v ''netIncome'' = Some 7" by (simp add: r1_def)
  with ld v show ?thesis unfolding fs_def df_def r1_def r2_def r3_def r4_def by blast
qed

section \<open>Properties of the panel assembly\<close>

lemma load_source_Inl:
  "load_source sv fs t src = Inl e \<longleftrightarrow> e = ParserError \<and> map_of (fs src) t = Some Unparsable"
  unfolding load_source_def Let_def
  by (auto split: option.split csv.split)

lemma load_source_index:
  assumes "load_source sv fs t src = Inr (Some tbl)"
  shows "\<exists>df. map_of (fs src) t = Some (Csv df) \<and> ''date'' \<in> set (rcolumns df)
     \<and> columns tbl = [c \<leftarrow> rcolumns df. c \<notin> set (''quarter'' # META_COLS)]
     \<and> map fst (rows tbl) = map fst (kept_rows sv df)"
proof -
  from assms obtain df where df: "map_of (fs src) t = Some (Csv df)"
    unfolding load_source_def by (auto split: option.splits csv.splits)
  note l = load_source_Some [OF assms df]
  have "map fst (rows tbl) = map fst (kept_rows sv df)"
    unfolding l(4) by (simp add: case_prod_unfold comp_def)
  with df l(1,3) show ?thesis by blast
qed

lemma kept_rows_covered:
  assumes "sorts_by_date sv"
  shows "fst ` set (kept_rows sv df) =
     {(y, (m - 1) div 3 + 1) | y m dd r. r \<in> set (rrows df) \<and> rdate r = Some (y, m, dd)
        \<and> 2000 \<le> y \<and> y \<le> 2024}"
proof (rule set_eqI, rule iffI)
  fix q
  assume "q \<in> fst ` set (kept_rows sv df)"
  then obtain d r where k: "(q, d, r) \<in> set (kept_rows sv df)" by force
  obtain y m dd where d: "d = (y, m, dd)" by (cases d)
  from kept_rows_set [OF assms] k have "r \<in> set (rrows df)" "rdate r = Some d"
    "YEAR_START \<le> year d" "year d \<le> YEAR_END" "q = to_period d"
    by auto
  then show "q \<in> {(y, (m - 1) div 3 + 1) | y m dd r. r \<in> set (rrows df) \<and> rdate r = Some (y, m, dd)
        \<and> 2000 \<le> y \<and> y \<le> 2024}"
    unfolding d by (auto simp add: to_period_def year_def month_def YEAR_START_def YEAR_END_def)
next
  fix q
  assume "q \<in> {(y, (m - 1) div 3 + 1) | y m dd r. r \<in> set (rrows df) \<and> rdate r = Some (y, m, dd)
        \<and> 2000 \<le> y \<and> y \<le> 2024}"
  then obtain y m dd r where r: "r \<in> set (rrows df)" "rdate r = Some (y, m, dd)"
    "2000 \<le> y" "y \<le> 2024" and q: "q = (y, (m - 1) div 3 + 1)"
    by blast
  have "to_period (y, m, dd) \<in> fst ` set (kept_rows sv df)"
    using r by (intro kept_rows_quarters [OF assms]) (simp_all add: year_def YEAR_START_def YEAR_END_def)
  then show "q \<in> fst ` set (kept_rows sv df)"
    unfolding q by (simp add: to_period_def year_def month_def)
qed

lemma covers_all_quarters_iff:
  assumes "sorts_by_date sv"
  shows "(\<exists>tbl. load_source sv fs t src = Inr (Some tbl)
            \<and> set EXPECTED_QTR_INDEX \<subseteq> fst ` set (rows tbl))
     \<longleftrightarrow> covers_all_quarters fs src t"
proof
  assume "\<exists>tbl. load_source sv fs t src = Inr (Some tbl)
            \<and> set EXPECTED_QTR_INDEX \<subseteq> fst ` set (rows tbl)"
  then obtain tbl where ld: "load_source sv fs t src = Inr (Some tbl)"
    and ex: "set EXPECTED_QTR_INDEX \<subseteq> fst ` set (rows tbl)" by blast
  from load_source_index [OF ld] obtain df where df: "map_of (fs src) t = Some (Csv df)"
    and dc: "''date'' \<in> set (rcolumns df)"
    and ix: "map fst (rows tbl) = map fst (kept_rows sv df)" by blast
  have sub: "set EXPECTED_QTR_INDEX \<subseteq> fst ` set (kept_rows sv df)"
    using ex unfolding set_map [symmetric] ix .
  have "\<exists>r \<in> set (rrows df). \<exists>m dd. rdate r = Some (y, m, dd) \<and> (m - 1) div 3 + 1 = q"
    if "2000 \<le> y \<and> y \<le> 2024 \<and> 1 \<le> q \<and> q \<le> 4" for y q
  proof -
    from that have "(y, q) \<in> set EXPECTED_QTR_INDEX" unfolding expected_set by simp
    with sub have "(y, q) \<in> fst ` set (kept_rows sv df)" by blast
    then show ?thesis unfolding kept_rows_covered [OF assms] by blast
  qed
  with df dc show "covers_all_quarters fs src t" by blast
next
  assume "covers_all_quarters fs src t"
  then obtain df where df: "map_of (fs src) t = Some (Csv df)"
    and dc: "''date'' \<in> set (rcolumns df)"
    and cov: "\<forall>y q. 2000 \<le> y \<and> y \<le> 2024 \<and> 1 \<le> q \<and> q \<le> 4 \<longrightarrow>
               (\<exists>r \<in> set (rrows df). \<exists>m dd. rdate r = Some (y, m, dd) \<and> (m - 1) div 3 + 1 = q)"
    by blast
  from cov [rule_format, of 2000 1] have ne: "rrows df \<noteq> []" by auto
  define tbl where "tbl = \<lparr>columns = [c \<leftarrow> rcolumns df. c \<notin> set (''quarter'' # META_COLS)],
       rows = map (\<lambda>(q, d, r). (q, \<lambda>c. to_numeric (rcells r c))) (kept_rows sv df)\<rparr>"
  have ld: "load_source sv fs t src = Inr (Some tbl)"
    unfolding load_source_def Let_def tbl_def using df dc ne by simp
  have ix: "map fst (rows tbl) = map fst (kept_rows sv df)"
    unfolding tbl_def by (simp add: case_prod_unfold comp_def)
  have "set EXPECTED_QTR_INDEX \<subseteq> fst ` set (kept_rows sv df)"
  proof
    fix p assume "p \<in> set EXPECTED_QTR_INDEX"
    then obtain y q where p: "p = (y, q)" and b: "2000 \<le> y \<and> y \<le> 2024 \<and> 1 \<le> q \<and> q \<le> 4"
      unfolding expected_set by blast
    from cov [rule_format, OF b] obtain r m dd where "r \<in> set (rrows df)"
      "rdate r = Some (y, m, dd)" "(m - 1) div 3 + 1 = q" by blast
    with b show "p \<in> fst ` set (kept_rows sv df)"
      unfolding kept_rows_covered [OF assms] p by blast
  qed
  then have "set EXPECTED_QTR_INDEX \<subseteq> fst ` set (rows tbl)"
    unfolding set_map [symmetric] ix .
  with ld show "\<exists>tbl. load_source sv fs t src = Inr (Some tbl)
            \<and> set EXPECTED_QTR_INDEX \<subseteq> fst ` set (rows tbl)" by blast
qed

lemma load_sources_Inr:
  "load_sources sv fs t = Inr srcs \<longleftrightarrow>
     (\<exists>a b c. load_source sv fs t ''income'' = Inr a \<and> load_source sv fs t ''balance'' = Inr b
        \<and> load_source sv fs t ''cashflow'' = Inr c
        \<and> srcs = [(''income'', a), (''balance'', b), (''cashflow'', c)])"
  unfolding load_sources_def and_then_Inr by auto

lemma load_sources_Inl:
  "load_sources sv fs t = Inl e \<longleftrightarrow>
     e = ParserError \<and> (\<exists>src \<in> {''income'', ''balance'', ''cashflow''}. map_of (fs src) t = Some Unparsable)"
proof (cases "load_sources sv fs t")
  case (Inl e')
  then have "load_source sv fs t ''income'' = Inl e' \<or> load_source sv fs t ''balance'' = Inl e'
     \<or> load_source sv fs t ''cashflow'' = Inl e'"
    unfolding load_sources_def and_then_Inl by auto
  then have "e' = ParserError \<and> (\<exists>src \<in> {''income'', ''balance'', ''cashflow''}. map_of (fs src) t = Some Unparsable)"
    unfolding load_source_Inl by auto
  with Inl show ?thesis by auto
next
  case (Inr srcs)
  then obtain a b c where "load_source sv fs t ''income'' = Inr a"
    "load_source sv fs t ''balance'' = Inr b" "load_source sv fs t ''cashflow'' = Inr c"
    unfolding load_sources_Inr by blast
  then have "map_of (fs src) t \<noteq> Some Unparsable" if "src \<in> {''income'', ''balance'', ''cashflow''}" for src
    using that load_source_Inl [of sv fs t src ParserError] by auto
  with Inr show ?thesis by auto
qed

lemma load_sources_complete:
  assumes "sorts_by_date sv" "load_sources sv fs t = Inr srcs"
  shows "is_complete srcs \<longleftrightarrow>
     covers_all_quarters fs ''income'' t \<and> covers_all_quarters fs ''balance'' t
       \<and> covers_all_quarters fs ''cashflow'' t"
proof -
  from assms(2) obtain a b c where l: "load_source sv fs t ''income'' = Inr a"
    "load_source sv fs t ''balance'' = Inr b" "load_source sv fs t ''cashflow'' = Inr c"
    and srcs: "srcs = [(''income'', a), (''balance'', b), (''cashflow'', c)]"
    unfolding load_sources_Inr by blast
  note i = covers_all_quarters_iff [OF assms(1), of fs t, symmetric]
  show ?thesis unfolding srcs is_complete_present i l by simp
qed

lemma ratio_sources:
  assumes "r \<in> set RATIOS"
  shows "numerator_src r \<in> {''income'', ''balance'', ''cashflow''}"
    and "denominator_src r \<in> {''income'', ''balance'', ''cashflow''}"
    and "numerator_col r \<notin> set (''quarter'' # META_COLS)"
    and "denominator_col r \<notin> set (''quarter'' # META_COLS)"
  using assms unfolding RATIOS_def mk_ratio_def META_COLS_def by auto

lemma loaded_columns:
  assumes "load_sources sv fs t = Inr srcs" "is_complete srcs"
    "src \<in> {''income'', ''balance'', ''cashflow''}"
  shows "\<exists>tbl df. map_of srcs src = Some (Some tbl) \<and> map_of (fs src) t = Some (Csv df)
     \<and> columns tbl = [c \<leftarrow> rcolumns df. c \<notin> set (''quarter'' # META_COLS)]"
proof -
  from assms(1) obtain a b c where l: "load_source sv fs t ''income'' = Inr a"
    "load_source sv fs t ''balance'' = Inr b" "load_source sv fs t ''cashflow'' = Inr c"
    and srcs: "srcs = [(''income'', a), (''balance'', b), (''cashflow'', c)]"
    unfolding load_sources_Inr by blast
  from assms(2) obtain fa fb fc where s: "a = Some fa" "b = Some fb" "c = Some fc"
    unfolding srcs is_complete_present by blast
  from assms(3) obtain tbl where m: "map_of srcs src = Some (Some tbl)"
    and ld: "load_source sv fs t src = Inr (Some tbl)"
    unfolding srcs using l s by auto
  from load_source_index [OF ld] m show ?thesis by blast
qed

lemma compute_ratios_ok:
  assumes "load_sources sv fs t = Inr srcs" "is_complete srcs"
    and cols: "\<forall>r \<in> set RATIOS.
       (\<forall>df. map_of (fs (numerator_src r)) t = Some (Csv df) \<longrightarrow> numerator_col r \<in> set (rcolumns df))
     \<and> (\<forall>df. map_of (fs (denominator_src r)) t = Some (Csv df) \<longrightarrow> denominator_col r \<in> set (rcolumns df))"
  shows "\<exists>res. compute_ratios srcs = Inr res"
proof -
  have "\<exists>num den. ratio_inputs srcs r num den" if r: "r \<in> set RATIOS" for r
  proof -
    from loaded_columns [OF assms(1,2) ratio_sources(1) [OF r]]
    obtain ntbl ndf where n: "map_of srcs (numerator_src r) = Some (Some ntbl)"
      "map_of (fs (numerator_src r)) t = Some (Csv ndf)"
      "columns ntbl = [c \<leftarrow> rcolumns ndf. c \<notin> set (''quarter'' # META_COLS)]" by blast
    from loaded_columns [OF assms(1,2) ratio_sources(2) [OF r]]
    obtain dtbl ddf where d: "map_of srcs (denominator_src r) = Some (Some dtbl)"
      "map_of (fs (denominator_src r)) t = Some (Csv ddf)"
      "columns dtbl = [c \<leftarrow> rcolumns ddf. c \<notin> set (''quarter'' # META_COLS)]" by blast
    from cols r n(2) d(2) have "numerator_col r \<in> set (rcolumns ndf)"
      "denominator_col r \<in> set (rcolumns ddf)" by blast+
    with ratio_sources(3,4) [OF r] have "numerator_col r \<in> set (columns ntbl)"
      "denominator_col r \<in> set (columns dtbl)" unfolding n(3) d(3) by simp_all
    from ratio_inputs_frames [OF n(1) this(1) d(1) this(2)] show ?thesis by blast
  qed
  then have "\<forall>r \<in> set RATIOS. \<exists>num den. ratio_inputs srcs r num den" by blast
  from for_ratios_ok [OF this] show ?thesis unfolding compute_ratios_def .
qed

lemma load_loop_Inr:
  assumes "load_loop sv fs ts = Inr frames"
  shows "map fst frames = [t \<leftarrow> ts. \<exists>srcs. load_sources sv fs t = Inr srcs \<and> is_complete srcs]"
    and "\<forall>(t, df) \<in> set frames. map fst (rows df) = EXPECTED_QTR_INDEX \<and> columns df = RATIO_NAMES"
proof -
  have "map fst frames = [t \<leftarrow> ts. \<exists>srcs. load_sources sv fs t = Inr srcs \<and> is_complete srcs]
    \<and> (\<forall>(t, df) \<in> set frames. map fst (rows df) = EXPECTED_QTR_INDEX \<and> columns df = RATIO_NAMES)"
    using assms
  proof (induction ts arbitrary: frames)
    case Nil
    then show ?case by simp
  next
    case (Cons t ts)
    from Cons.prems obtain srcs where s: "load_sources sv fs t = Inr srcs"
      and rest: "(if \<not> is_complete srcs then load_loop sv fs ts
         else and_then (compute_ratios srcs) (\<lambda>ratios.
              and_then (load_loop sv fs ts) (\<lambda>all_ratios. Inr ((t, ratios) # all_ratios)))) = Inr frames"
      unfolding load_loop.simps and_then_Inr by blast
    show ?case
    proof (cases "is_complete srcs")
      case False
      with rest have "load_loop sv fs ts = Inr frames" by simp
      from Cons.IH [OF this] s False show ?thesis by simp
    next
      case True
      with rest have "and_then (compute_ratios srcs) (\<lambda>ratios.
              and_then (load_loop sv fs ts) (\<lambda>all_ratios. Inr ((t, ratios) # all_ratios))) = Inr frames"
        by simp
      then obtain ratios tl where c: "compute_ratios srcs = Inr ratios"
        and l: "load_loop sv fs ts = Inr tl" and d: "frames = (t, ratios) # tl"
        unfolding and_then_Inr by auto
      from Cons.IH [OF l] s True compute_ratios_index [OF c] compute_ratios_columns [OF c]
      show ?thesis unfolding d by simp
    qed
  qed
  then show "map fst frames = [t \<leftarrow> ts. \<exists>srcs. load_sources sv fs t = Inr srcs \<and> is_complete srcs]"
    and "\<forall>(t, df) \<in> set frames. map fst (rows df) = EXPECTED_QTR_INDEX \<and> columns df = RATIO_NAMES"
    by blast+
qed

lemma load_loop_ok:
  assumes "\<forall>t \<in> set ts. \<exists>srcs. load_sources sv fs t = Inr srcs
     \<and> (is_complete srcs \<longrightarrow> (\<exists>res. compute_ratios srcs = Inr res))"
  shows "\<exists>frames. load_loop sv fs ts = Inr frames"
  using assms
proof (induction ts)
  case Nil
  then show ?case by simp
next
  case (Cons t ts)
  then obtain srcs where s: "load_sources sv fs t = Inr srcs"
    and c: "is_complete srcs \<longrightarrow> (\<exists>res. compute_ratios srcs = Inr res)" by auto
  from Cons obtain tl where l: "load_loop sv fs ts = Inr tl" by auto
  show ?case
  proof (cases "is_complete srcs")
    case False
    with s l show ?thesis by simp
  next
    case True
    with c obtain res where "compute_ratios srcs = Inr res" by blast
    with s l True show ?thesis by simp
  qed
qed

lemma select_columns_Inr:
  "select_columns p cols = Inr p' \<longleftrightarrow> set cols \<subseteq> set (pcolumns p) \<and> p' = p\<lparr>pcolumns := cols\<rparr>"
proof (cases "[c \<leftarrow> cols. c \<notin> set (pcolumns p)]")
  case Nil
  then have "set cols \<subseteq> set (pcolumns p)" by (auto simp add: filter_empty_conv)
  with Nil show ?thesis unfolding select_columns_def by auto
next
  case (Cons c cs)
  then have "c \<in> set [c \<leftarrow> cols. c \<notin> set (pcolumns p)]" by simp
  then have "\<not> set cols \<subseteq> set (pcolumns p)" by auto
  with Cons show ?thesis unfolding select_columns_def by simp
qed

lemma concat_frames_columns:
  assumes "frames \<noteq> []" "\<forall>(t, df) \<in> set frames. columns df = RATIO_NAMES"
  shows "set (pcolumns (concat_frames frames)) = set RATIO_NAMES"
proof -
  from assms(1) obtain t df where m: "(t, df) \<in> set frames" by (cases frames) auto
  have "set (pcolumns (concat_frames frames)) = (\<Union>(t, df) \<in> set frames. set (columns df))"
    unfolding concat_frames_def by (auto simp add: case_prod_unfold)
  also have "\<dots> = set RATIO_NAMES" using assms(2) m by fastforce
  finally show ?thesis .
qed

lemma build_ratio_panel_Inr:
  "build_ratio_panel sv fs profiles = Inr p \<longleftrightarrow>
     (\<exists>frames. load_loop sv fs (filter_sectors (get_ticker_universe fs) (load_sector_map profiles)) = Inr frames
        \<and> frames \<noteq> [] \<and> p = (winsorize_panel (concat_frames frames))\<lparr>pcolumns := RATIO_NAMES\<rparr>)"
proof -
  define ts where "ts = filter_sectors (get_ticker_universe fs) (load_sector_map profiles)"
  have sel: "select_columns (winsorize_panel (concat_frames frames)) RATIO_NAMES = Inr p
     \<longleftrightarrow> p = (winsorize_panel (concat_frames frames))\<lparr>pcolumns := RATIO_NAMES\<rparr>"
    if "load_loop sv fs ts = Inr frames" "frames \<noteq> []" for frames
  proof -
    from load_loop_Inr(2) [OF that(1)] have "\<forall>(t, df) \<in> set frames. columns df = RATIO_NAMES"
      by auto
    from concat_frames_columns [OF that(2) this] show ?thesis
      unfolding select_columns_Inr winsorize_panel_rows(3) by simp
  qed
  show ?thesis
    unfolding build_ratio_panel_def Let_def ts_def [symmetric] and_then_Inr
    using sel by (auto split: if_splits)
qed

lemma build_ratio_panel_Inl:
  "build_ratio_panel sv fs profiles = Inl e \<longleftrightarrow>
     load_loop sv fs (filter_sectors (get_ticker_universe fs) (load_sector_map profiles)) = Inl e
   \<or> load_loop sv fs (filter_sectors (get_ticker_universe fs) (load_sector_map profiles)) = Inr []
       \<and> e = RuntimeError ''Kein einziger Ticker hat den Vollstaendigkeitsfilter bestanden!''"
proof -
  define ts where "ts = filter_sectors (get_ticker_universe fs) (load_sector_map profiles)"
  show ?thesis
  proof (cases "load_loop sv fs ts")
    case (Inl e')
    then show ?thesis unfolding build_ratio_panel_def Let_def ts_def [symmetric] by simp
  next
    case (Inr d)
    show ?thesis
    proof (cases "d = []")
      case True
      with Inr show ?thesis unfolding build_ratio_panel_def Let_def ts_def [symmetric] by auto
    next
      case False
      with Inr have "build_ratio_panel sv fs profiles
         = Inr ((winsorize_panel (concat_frames d))\<lparr>pcolumns := RATIO_NAMES\<rparr>)"
        unfolding build_ratio_panel_Inr ts_def [symmetric] by simp
      with Inr False show ?thesis unfolding ts_def [symmetric] by simp
    qed
  qed
qed

lemma universe_distinct: "distinct (get_ticker_universe fs)"
  unfolding get_ticker_universe_def by simp

lemma universe_set:
  "set (get_ticker_universe fs) =
     fst ` set (fs ''income'') \<inter> fst ` set (fs ''balance'') \<inter> fst ` set (fs ''cashflow'')"
  unfolding get_ticker_universe_def csv_tickers_def by auto

lemma filter_sectors_set:
  "set (filter_sectors ts m) = {t \<in> set ts. \<forall>s. m t = Some s \<longrightarrow> s \<notin> EXCLUDED_SECTORS}"
proof -
  have "dict_get m t '''' \<notin> EXCLUDED_SECTORS \<longleftrightarrow> (\<forall>s. m t = Some s \<longrightarrow> s \<notin> EXCLUDED_SECTORS)" for t
    by (cases "m t") (simp_all add: dict_get_def empty_label_not_excluded)
  then show ?thesis unfolding filter_sectors_def by auto
qed

lemma filter_sectors_distinct: "distinct ts \<Longrightarrow> distinct (filter_sectors ts m)"
  unfolding filter_sectors_def by simp

lemma expected_labels:
  "map period_str EXPECTED_QTR_INDEX =
     concat (map (\<lambda>y. map (\<lambda>q. y @ ''Q'' @ q) [''1'', ''2'', ''3'', ''4''])
       [''2000'', ''2001'', ''2002'', ''2003'', ''2004'', ''2005'', ''2006'', ''2007'', ''2008'',
        ''2009'', ''2010'', ''2011'', ''2012'', ''2013'', ''2014'', ''2015'', ''2016'', ''2017'',
        ''2018'', ''2019'', ''2020'', ''2021'', ''2022'', ''2023'', ''2024''])"
  unfolding EXPECTED_QTR_INDEX_def build_expected_quarters_def period_range_def expected_bounds
  by (simp add: period_of_ordinal_def period_str_def digit_char_def)

lemma ratio_names:
  "RATIO_NAMES = [''ROA'', ''ROE'', ''EBIT_margin'', ''fcf_margin'', ''current_ratio'',
     ''debt_to_equity'', ''equity_ratio'']"
  by (simp add: RATIO_NAMES_def RATIOS_def mk_ratio_def)

lemma concat_frames_Cons:
  "prows (concat_frames ((t, df) # frames)) =
     map (\<lambda>(q, v). \<lparr>ticker = t, quarter = period_str q, cells = v\<rparr>) (rows df)
       @ prows (concat_frames frames)"
  by (simp add: concat_frames_def)

lemma concat_frames_tickers:
  "ticker ` set (prows (concat_frames frames)) = {t. \<exists>df. (t, df) \<in> set frames \<and> rows df \<noteq> []}"
proof (induction frames)
  case Nil
  then show ?case by (simp add: concat_frames_def)
next
  case (Cons a frames)
  obtain t df where a: "a = (t, df)" by (cases a)
  have "ticker ` set (map (\<lambda>(q, v). \<lparr>ticker = t, quarter = period_str q, cells = v\<rparr>) (rows df))
     = (if rows df = [] then {} else {t})"
    by (cases "rows df") (auto simp add: image_iff case_prod_unfold)
  then show ?case unfolding a concat_frames_Cons set_append image_Un Cons.IH by auto
qed

lemma concat_frames_other:
  "t \<notin> fst ` set frames \<Longrightarrow> [r \<leftarrow> prows (concat_frames frames). ticker r = t] = []"
  using concat_frames_tickers [of frames] by (force simp add: filter_empty_conv)

lemma concat_frames_quarters:
  assumes "distinct (map fst frames)" "(t, df) \<in> set frames"
  shows "map quarter [r \<leftarrow> prows (concat_frames frames). ticker r = t]
     = map period_str (map fst (rows df))"
  using assms
proof (induction frames)
  case Nil
  then show ?case by simp
next
  case (Cons a frames)
  obtain t' df' where a: "a = (t', df')" by (cases a)
  have own: "[r \<leftarrow> map (\<lambda>(q, v). \<lparr>ticker = t', quarter = period_str q, cells = v\<rparr>) (rows df').
                ticker r = t] =
     (if t' = t then map (\<lambda>(q, v). \<lparr>ticker = t', quarter = period_str q, cells = v\<rparr>) (rows df') else [])"
    by (induction "rows df'") (auto simp add: filter_empty_conv case_prod_unfold)
  show ?case
  proof (cases "t' = t")
    case True
    with Cons.prems have "t \<notin> fst ` set frames" and df: "df' = df"
      unfolding a by (auto simp add: image_iff)
    from concat_frames_other [OF this(1)] show ?thesis
      unfolding a concat_frames_Cons filter_append own True df
      by (simp add: case_prod_unfold comp_def)
  next
    case False
    with Cons.prems have "distinct (map fst frames)" "(t, df) \<in> set frames"
      unfolding a by auto
    from Cons.IH [OF this] show ?thesis
      unfolding a concat_frames_Cons filter_append own using False by simp
  qed
qed

lemma filter_by_ticker:
  assumes "map ticker xs = map ticker ys" "map quarter xs = map quarter ys"
  shows "map quarter [r \<leftarrow> xs. ticker r = t] = map quarter [r \<leftarrow> ys. ticker r = t]"
proof -
  from assms(1) have "length xs = length ys" by (rule map_eq_imp_length_eq)
  then show ?thesis using assms
    by (induction xs ys rule: list_induct2) auto
qed

lemma panel_quarters:
  assumes "load_loop sv fs ts = Inr frames" "distinct ts"
    "t \<in> ticker ` set (prows (winsorize_panel (concat_frames frames)))"
  shows "map quarter [r \<leftarrow> prows (winsorize_panel (concat_frames frames)). ticker r = t]
     = map period_str EXPECTED_QTR_INDEX"
proof -
  have "distinct [t \<leftarrow> ts. \<exists>srcs. load_sources sv fs t = Inr srcs \<and> is_complete srcs]"
    using assms(2) by simp
  then have d: "distinct (map fst frames)" unfolding load_loop_Inr(1) [OF assms(1)] .
  have "ticker ` set (prows (winsorize_panel (concat_frames frames)))
      = ticker ` set (prows (concat_frames frames))"
    unfolding set_map [symmetric] winsorize_panel_rows(1) ..
  with assms(3) obtain df where m: "(t, df) \<in> set frames"
    unfolding concat_frames_tickers by blast
  with load_loop_Inr(2) [OF assms(1)] have ix: "map fst (rows df) = EXPECTED_QTR_INDEX" by auto
  have "map quarter [r \<leftarrow> prows (winsorize_panel (concat_frames frames)). ticker r = t]
      = map quarter [r \<leftarrow> prows (concat_frames frames). ticker r = t]"
    by (rule filter_by_ticker) (rule winsorize_panel_rows)+
  also have "\<dots> = map period_str EXPECTED_QTR_INDEX"
    unfolding concat_frames_quarters [OF d m] ix ..
  finally show ?thesis .
qed

lemma covers_in_folder:
  "map_of (fs src) t = Some f \<Longrightarrow> t \<in> fst ` set (fs src)"
  by (rule image_eqI [where x = "(t, f)"]) (simp_all add: map_of_SomeD)

lemma load_loop_survivors:
  assumes sv: "sorts_by_date sv"
    and parse: "\<forall>t \<in> set ts. \<forall>src \<in> {''income'', ''balance'', ''cashflow''}.
        map_of (fs src) t \<noteq> Some Unparsable"
    and cols: "\<forall>t \<in> set ts. covers_all_quarters fs ''income'' t \<and> covers_all_quarters fs ''balance'' t
         \<and> covers_all_quarters fs ''cashflow'' t \<longrightarrow>
       (\<forall>r \<in> set RATIOS.
          (\<forall>df. map_of (fs (numerator_src r)) t = Some (Csv df) \<longrightarrow> numerator_col r \<in> set (rcolumns df))
        \<and> (\<forall>df. map_of (fs (denominator_src r)) t = Some (Csv df) \<longrightarrow> denominator_col r \<in> set (rcolumns df)))"
  shows "\<exists>frames. load_loop sv fs ts = Inr frames
     \<and> map fst frames = [t \<leftarrow> ts. covers_all_quarters fs ''income'' t
          \<and> covers_all_quarters fs ''balance'' t \<and> covers_all_quarters fs ''cashflow'' t]
     \<and> (\<forall>(t, df) \<in> set frames. map fst (rows df) = EXPECTED_QTR_INDEX \<and> columns df = RATIO_NAMES)"
proof -
  have loads: "\<exists>srcs. load_sources sv fs t = Inr srcs" if "t \<in> set ts" for t
  proof (cases "load_sources sv fs t")
    case (Inl e)
    then show ?thesis unfolding load_sources_Inl using parse that by blast
  next
    case (Inr srcs)
    then show ?thesis by blast
  qed
  have ok: "\<exists>srcs. load_sources sv fs t = Inr srcs
     \<and> (is_complete srcs \<longrightarrow> (\<exists>res. compute_ratios srcs = Inr res))" if t: "t \<in> set ts" for t
  proof -
    from loads [OF t] obtain srcs where s: "load_sources sv fs t = Inr srcs" by blast
    have "\<exists>res. compute_ratios srcs = Inr res" if c: "is_complete srcs"
    proof -
      from c have "covers_all_quarters fs ''income'' t \<and> covers_all_quarters fs ''balance'' t
         \<and> covers_all_quarters fs ''cashflow'' t"
        unfolding load_sources_complete [OF sv s] .
      with cols t have "\<forall>r \<in> set RATIOS.
          (\<forall>df. map_of (fs (numerator_src r)) t = Some (Csv df) \<longrightarrow> numerator_col r \<in> set (rcolumns df))
        \<and> (\<forall>df. map_of (fs (denominator_src r)) t = Some (Csv df) \<longrightarrow> denominator_col r \<in> set (rcolumns df))"
        by blast
      from compute_ratios_ok [OF s c this] show ?thesis .
    qed
    with s show ?thesis by blast
  qed
  then have "\<forall>t \<in> set ts. \<exists>srcs. load_sources sv fs t = Inr srcs
     \<and> (is_complete srcs \<longrightarrow> (\<exists>res. compute_ratios srcs = Inr res))" by blast
  from load_loop_ok [OF this] obtain frames where l: "load_loop sv fs ts = Inr frames" by blast
  have "(\<exists>srcs. load_sources sv fs t = Inr srcs \<and> is_complete srcs) \<longleftrightarrow>
     covers_all_quarters fs ''income'' t \<and> covers_all_quarters fs ''balance'' t
       \<and> covers_all_quarters fs ''cashflow'' t" if t: "t \<in> set ts" for t
  proof -
    from loads [OF t] obtain srcs where s: "load_sources sv fs t = Inr srcs" by blast
    show ?thesis unfolding s load_sources_complete [OF sv s, symmetric] by simp
  qed
  then have "[t \<leftarrow> ts. \<exists>srcs. load_sources sv fs t = Inr srcs \<and> is_complete srcs]
     = [t \<leftarrow> ts. covers_all_quarters fs ''income'' t
          \<and> covers_all_quarters fs ''balance'' t \<and> covers_all_quarters fs ''cashflow'' t]"
    by (intro filter_cong refl)
  with l load_loop_Inr [OF l] show ?thesis by simp
qed

lemma panel_tickers:
  assumes "\<forall>(t, df) \<in> set frames. map fst (rows df) = EXPECTED_QTR_INDEX \<and> columns df = RATIO_NAMES"
  shows "ticker ` set (prows ((winsorize_panel (concat_frames frames))\<lparr>pcolumns := cols\<rparr>))
     = set (map fst frames)"
proof -
  have ne: "rows df \<noteq> []" if "(t, df) \<in> set frames" for t df
  proof -
    from assms that have "map fst (rows df) = EXPECTED_QTR_INDEX" by fastforce
    from arg_cong [OF this, of length] have "length (rows df) = 100"
      unfolding length_map expected_length .
    then show ?thesis by auto
  qed
  have "ticker ` set (prows ((winsorize_panel (concat_frames frames))\<lparr>pcolumns := cols\<rparr>))
      = set (map ticker (prows (winsorize_panel (concat_frames frames))))" by simp
  also have "\<dots> = ticker ` set (prows (concat_frames frames))"
    unfolding winsorize_panel_rows(1) by simp
  also have "\<dots> = set (map fst frames)"
    unfolding concat_frames_tickers using ne by force
  finally show ?thesis .
qed

lemma build_ratio_panel_survivors:
  assumes sv: "sorts_by_date sv"
    and parse: "\<forall>t \<in> fst ` set (fs ''income'') \<inter> fst ` set (fs ''balance'') \<inter> fst ` set (fs ''cashflow'').
        (\<forall>s. load_sector_map profiles t = Some s \<longrightarrow> s \<notin> EXCLUDED_SECTORS) \<longrightarrow>
        (\<forall>src \<in> {''income'', ''balance'', ''cashflow''}. map_of (fs src) t \<noteq> Some Unparsable)"
    and cols: "\<forall>t. survives fs profiles t \<longrightarrow>
       (\<forall>r \<in> set RATIOS.
          (\<forall>df. map_of (fs (numerator_src r)) t = Some (Csv df) \<longrightarrow> numerator_col r \<in> set (rcolumns df))
        \<and> (\<forall>df. map_of (fs (denominator_src r)) t = Some (Csv df) \<longrightarrow> denominator_col r \<in> set (rcolumns df)))"
  shows "(\<not> (\<exists>t. survives fs profiles t) \<longrightarrow> build_ratio_panel sv fs profiles
        = Inl (RuntimeError ''Kein einziger Ticker hat den Vollstaendigkeitsfilter bestanden!''))
     \<and> ((\<exists>t. survives fs profiles t) \<longrightarrow>
          (\<exists>p. build_ratio_panel sv fs profiles = Inr p
             \<and> ticker ` set (prows p) = {t. survives fs profiles t}))"
proof -
  define ts where "ts = filter_sectors (get_ticker_universe fs) (load_sector_map profiles)"
  define cov where "cov t \<longleftrightarrow> covers_all_quarters fs ''income'' t
     \<and> covers_all_quarters fs ''balance'' t \<and> covers_all_quarters fs ''cashflow'' t" for t
  define sec where "sec t \<longleftrightarrow> (\<forall>s. load_sector_map profiles t = Some s \<longrightarrow> s \<notin> EXCLUDED_SECTORS)" for t
  have ts: "set ts = {t. t \<in> fst ` set (fs ''income'') \<inter> fst ` set (fs ''balance'')
       \<inter> fst ` set (fs ''cashflow'') \<and> sec t}"
    unfolding ts_def filter_sectors_set universe_set sec_def by blast
  have in_ts: "t \<in> set ts" if "sec t" "cov t" for t
  proof -
    from that(2) have "t \<in> fst ` set (fs ''income'')" "t \<in> fst ` set (fs ''balance'')"
      "t \<in> fst ` set (fs ''cashflow'')"
      unfolding cov_def by (blast intro: covers_in_folder)+
    with that(1) show ?thesis unfolding ts by blast
  qed
  have surv: "survives fs profiles t \<longleftrightarrow> sec t \<and> cov t" for t
    unfolding sec_def cov_def by (rule refl)
  have p1: "\<forall>t \<in> set ts. \<forall>src \<in> {''income'', ''balance'', ''cashflow''}.
        map_of (fs src) t \<noteq> Some Unparsable"
    using parse unfolding ts sec_def by blast
  have p2: "\<forall>t \<in> set ts. cov t \<longrightarrow>
       (\<forall>r \<in> set RATIOS.
          (\<forall>df. map_of (fs (numerator_src r)) t = Some (Csv df) \<longrightarrow> numerator_col r \<in> set (rcolumns df))
        \<and> (\<forall>df. map_of (fs (denominator_src r)) t = Some (Csv df) \<longrightarrow> denominator_col r \<in> set (rcolumns df)))"
  proof (rule ballI, rule impI)
    fix t assume "t \<in> set ts" "cov t"
    then have "sec t \<and> cov t" unfolding ts by blast
    then have "survives fs profiles t" unfolding surv .
    from cols [THEN spec, THEN mp, OF this] show "\<forall>r \<in> set RATIOS.
          (\<forall>df. map_of (fs (numerator_src r)) t = Some (Csv df) \<longrightarrow> numerator_col r \<in> set (rcolumns df))
        \<and> (\<forall>df. map_of (fs (denominator_src r)) t = Some (Csv df) \<longrightarrow> denominator_col r \<in> set (rcolumns df))" .
  qed
  from load_loop_survivors [OF sv p1 p2 [unfolded cov_def]]
  obtain frames where l: "load_loop sv fs ts = Inr frames"
    and m: "map fst frames = [t \<leftarrow> ts. cov t]"
    and f: "\<forall>(t, df) \<in> set frames. map fst (rows df) = EXPECTED_QTR_INDEX \<and> columns df = RATIO_NAMES"
    unfolding cov_def by blast
  have s: "set (map fst frames) = {t. sec t \<and> cov t}"
    unfolding m using in_ts ts by auto
  have a: "build_ratio_panel sv fs profiles
        = Inl (RuntimeError ''Kein einziger Ticker hat den Vollstaendigkeitsfilter bestanden!'')"
    if n: "\<not> (\<exists>t. survives fs profiles t)"
  proof -
    from n have "\<not> (\<exists>t. sec t \<and> cov t)" unfolding surv .
    then have "{t. sec t \<and> cov t} = {}" by simp
    then have "set (map fst frames) = {}" unfolding s .
    then have "frames = []" by simp
    with l show ?thesis unfolding build_ratio_panel_Inl ts_def by simp
  qed
  have b: "\<exists>p. build_ratio_panel sv fs profiles = Inr p
             \<and> ticker ` set (prows p) = {t. survives fs profiles t}"
    if y: "\<exists>t. survives fs profiles t"
  proof -
    from y have "\<exists>t. sec t \<and> cov t" unfolding surv .
    then have "{t. sec t \<and> cov t} \<noteq> {}" by simp
    then have "set (map fst frames) \<noteq> {}" unfolding s .
    then have ne: "frames \<noteq> []" by auto
    define p where "p = (winsorize_panel (concat_frames frames))\<lparr>pcolumns := RATIO_NAMES\<rparr>"
    from l ne have "build_ratio_panel sv fs profiles = Inr p"
      unfolding build_ratio_panel_Inr ts_def p_def by blast
    moreover have "ticker ` set (prows p) = {t. survives fs profiles t}"
      unfolding p_def panel_tickers [OF f] s surv ..
    ultimately show ?thesis by (intro exI conjI)
  qed
  show ?thesis
  proof (rule conjI)
    show "\<not> (\<exists>t. survives fs profiles t) \<longrightarrow> build_ratio_panel sv fs profiles
        = Inl (RuntimeError ''Kein einziger Ticker hat den Vollstaendigkeitsfilter bestanden!'')"
      by (rule impI) (rule a)
    show "(\<exists>t. survives fs profiles t) \<longrightarrow>
          (\<exists>p. build_ratio_panel sv fs profiles = Inr p
             \<and> ticker ` set (prows p) = {t. survives fs profiles t})"
      by (rule impI) (rule b)
  qed
qed

lemma quarter_ends_cover:
  assumes "rrows df = map (\<lambda>(y, q). \<lparr>rdate = Some (y, 3 * q, 28), rcells = f\<rparr>) EXPECTED_QTR_INDEX"
  shows "\<forall>y q. 2000 \<le> y \<and> y \<le> 2024 \<and> 1 \<le> q \<and> q \<le> 4 \<longrightarrow>
     (\<exists>r \<in> set (rrows df). \<exists>m dd. rdate r = Some (y, m, dd) \<and> (m - 1) div 3 + 1 = q)"
proof (intro allI impI)
  fix y q :: nat
  assume b: "2000 \<le> y \<and> y \<le> 2024 \<and> 1 \<le> q \<and> q \<le> 4"
  then have "(y, q) \<in> set EXPECTED_QTR_INDEX" unfolding expected_set by simp
  then have "(\<lambda>(y, q). \<lparr>rdate = Some (y, 3 * q, 28), rcells = f\<rparr>) (y, q) \<in> set (rrows df)"
    unfolding assms set_map by (rule imageI)
  then have r: "\<lparr>rdate = Some (y, 3 * q, 28), rcells = f\<rparr> \<in> set (rrows df)" by simp
  from b have "(3 * q - 1) div 3 + 1 = q" by arith
  then have "\<exists>m dd. rdate \<lparr>rdate = Some (y, 3 * q, 28), rcells = f\<rparr> = Some (y, m, dd)
     \<and> (m - 1) div 3 + 1 = q" by simp
  with r show "\<exists>r \<in> set (rrows df). \<exists>m dd. rdate r = Some (y, m, dd) \<and> (m - 1) div 3 + 1 = q"
    by (rule bexI [rotated])
qed

lemma quarter_ends_file:
  assumes "map_of (fs src) t = Some (Csv \<lparr>rcolumns = cols,
      rrows = map (\<lambda>(y, q). \<lparr>rdate = Some (y, 3 * q, 28), rcells = f\<rparr>) EXPECTED_QTR_INDEX\<rparr>)"
    and "''date'' \<in> set cols"
  shows "covers_all_quarters fs src t"
proof -
  define df where "df = \<lparr>rcolumns = cols,
      rrows = map (\<lambda>(y, q). \<lparr>rdate = Some (y, 3 * q, 28), rcells = f\<rparr>) EXPECTED_QTR_INDEX\<rparr>"
  have "rrows df = map (\<lambda>(y, q). \<lparr>rdate = Some (y, 3 * q, 28), rcells = f\<rparr>) EXPECTED_QTR_INDEX"
    by (simp add: df_def)
  from quarter_ends_cover [OF this] assms show ?thesis
    unfolding df_def [symmetric] by (intro exI [of _ df] conjI) (simp_all add: df_def)
qed

lemma ratio_columns:
  "\<forall>r \<in> set RATIOS.
     numerator_col r \<in> set [''date'', ''netIncome'', ''ebit'', ''totalRevenue'', ''totalAssets'',
        ''totalStockholderEquity'', ''totalCurrentAssets'', ''totalCurrentLiabilities'',
        ''shortLongTermDebtTotal'', ''freeCashFlow'']
   \<and> denominator_col r \<in> set [''date'', ''netIncome'', ''ebit'', ''totalRevenue'', ''totalAssets'',
        ''totalStockholderEquity'', ''totalCurrentAssets'', ''totalCurrentLiabilities'',
        ''shortLongTermDebtTotal'', ''freeCashFlow'']"
  by (simp add: RATIOS_def mk_ratio_def)

text \<open>
  Claim C1. In the panel that \<open>build_ratio_panel\<close> returns, the rows of every ticker that
  appears are 100 in number and their quarter labels are, in order and without repetition,
  \<open>2000Q1\<close>, \<open>2000Q2\<close>, ... up to \<open>2024Q4\<close>; the panel has the seven ratio columns, so each
  of these rows has a cell (a number or NaN) for every ratio.
\<close>

theorem build_ratio_panel_all_quarters:
  assumes "build_ratio_panel sv fs profiles = Inr p" "t \<in> ticker ` set (prows p)"
  shows "map quarter [r \<leftarrow> prows p. ticker r = t] =
       concat (map (\<lambda>y. map (\<lambda>q. y @ ''Q'' @ q) [''1'', ''2'', ''3'', ''4''])
         [''2000'', ''2001'', ''2002'', ''2003'', ''2004'', ''2005'', ''2006'', ''2007'', ''2008'',
          ''2009'', ''2010'', ''2011'', ''2012'', ''2013'', ''2014'', ''2015'', ''2016'', ''2017'',
          ''2018'', ''2019'', ''2020'', ''2021'', ''2022'', ''2023'', ''2024''])
     \<and> length [r \<leftarrow> prows p. ticker r = t] = 100
     \<and> pcolumns p = [''ROA'', ''ROE'', ''EBIT_margin'', ''fcf_margin'', ''current_ratio'',
         ''debt_to_equity'', ''equity_ratio'']"
proof -
  from assms(1) obtain frames where
    l: "load_loop sv fs (filter_sectors (get_ticker_universe fs) (load_sector_map profiles)) = Inr frames"
    and p: "p = (winsorize_panel (concat_frames frames))\<lparr>pcolumns := RATIO_NAMES\<rparr>"
    unfolding build_ratio_panel_Inr by blast
  have rows: "prows p = prows (winsorize_panel (concat_frames frames))" unfolding p by simp
  have d: "distinct (filter_sectors (get_ticker_universe fs) (load_sector_map profiles))"
    by (rule filter_sectors_distinct) (rule universe_distinct)
  from assms(2) have "t \<in> ticker ` set (prows (winsorize_panel (concat_frames frames)))"
    unfolding rows .
  from panel_quarters [OF l d this]
  have q: "map quarter [r \<leftarrow> prows p. ticker r = t] = map period_str EXPECTED_QTR_INDEX"
    unfolding rows .
  from arg_cong [OF q, of length] have n: "length [r \<leftarrow> prows p. ticker r = t] = 100"
    unfolding length_map expected_length .
  have c: "pcolumns p = RATIO_NAMES" unfolding p by simp
  from q n c show ?thesis unfolding expected_labels ratio_names by (intro conjI)
qed

theorem build_ratio_panel_all_quarters_witness:
  "\<exists>p. build_ratio_panel (sort_key (\<lambda>(q, d, r). d))
       (\<lambda>src. [(''AAA'', Csv \<lparr>rcolumns = [''date'', ''netIncome'', ''ebit'', ''totalRevenue'',
             ''totalAssets'', ''totalStockholderEquity'', ''totalCurrentAssets'',
             ''totalCurrentLiabilities'', ''shortLongTermDebtTotal'', ''freeCashFlow''],
           rrows = map (\<lambda>(y, q). \<lparr>rdate = Some (y, 3 * q, 28), rcells = (\<lambda>c. Num 2)\<rparr>)
                     EXPECTED_QTR_INDEX\<rparr>)])
       [] = Inr p
     \<and> ''AAA'' \<in> ticker ` set (prows p)
     \<and> map quarter [r \<leftarrow> prows p. ticker r = ''AAA''] =
         concat (map (\<lambda>y. map (\<lambda>q. y @ ''Q'' @ q) [''1'', ''2'', ''3'', ''4''])
           [''2000'', ''2001'', ''2002'', ''2003'', ''2004'', ''2005'', ''2006'', ''2007'', ''2008'',
            ''2009'', ''2010'', ''2011'', ''2012'', ''2013'', ''2014'', ''2015'', ''2016'', ''2017'',
            ''2018'', ''2019'', ''2020'', ''2021'', ''2022'', ''2023'', ''2024''])
     \<and> length [r \<leftarrow> prows p. ticker r = ''AAA''] = 100
     \<and> pcolumns p = [''ROA'', ''ROE'', ''EBIT_margin'', ''fcf_margin'', ''current_ratio'',
         ''debt_to_equity'', ''equity_ratio'']"
proof -
  define cols where "cols = [''date'', ''netIncome'', ''ebit'', ''totalRevenue'',
     ''totalAssets'', ''totalStockholderEquity'', ''totalCurrentAssets'',
     ''totalCurrentLiabilities'', ''shortLongTermDebtTotal'', ''freeCashFlow'']"
  define full where "full = \<lparr>rcolumns = cols,
     rrows = map (\<lambda>(y, q). \<lparr>rdate = Some (y, 3 * q, 28), rcells = (\<lambda>c :: string. Num 2)\<rparr>)
               EXPECTED_QTR_INDEX\<rparr>"
  define fs :: filesystem where "fs = (\<lambda>src. [(''AAA'', Csv full)])"
  define sv :: sort_values where "sv = sort_key (\<lambda>(q, d, r). d)"
  have sv: "sorts_by_date sv" unfolding sv_def by (rule stable_sort_sorts_by_date)
  have fl: "map_of (fs src) t = Some f \<longleftrightarrow> t = ''AAA'' \<and> f = Csv full" for src t f
    by (auto simp add: fs_def)
  have parse: "\<forall>t \<in> fst ` set (fs ''income'') \<inter> fst ` set (fs ''balance'') \<inter> fst ` set (fs ''cashflow'').
        (\<forall>s. load_sector_map [] t = Some s \<longrightarrow> s \<notin> EXCLUDED_SECTORS) \<longrightarrow>
        (\<forall>src \<in> {''income'', ''balance'', ''cashflow''}. map_of (fs src) t \<noteq> Some Unparsable)"
    unfolding fl by simp
  have rc: "\<forall>r \<in> set RATIOS. numerator_col r \<in> set cols \<and> denominator_col r \<in> set cols"
    unfolding cols_def by (rule ratio_columns)
  have present: "\<forall>r \<in> set RATIOS.
          (\<forall>df. map_of (fs (numerator_src r)) t = Some (Csv df) \<longrightarrow> numerator_col r \<in> set (rcolumns df))
        \<and> (\<forall>df. map_of (fs (denominator_src r)) t = Some (Csv df) \<longrightarrow> denominator_col r \<in> set (rcolumns df))"
    for t
    unfolding fl using rc by (simp add: full_def)
  have cols: "\<forall>t. survives fs [] t \<longrightarrow>
       (\<forall>r \<in> set RATIOS.
          (\<forall>df. map_of (fs (numerator_src r)) t = Some (Csv df) \<longrightarrow> numerator_col r \<in> set (rcolumns df))
        \<and> (\<forall>df. map_of (fs (denominator_src r)) t = Some (Csv df) \<longrightarrow> denominator_col r \<in> set (rcolumns df)))"
    by (rule allI, rule impI) (rule present)
  have cov: "covers_all_quarters fs src ''AAA''" for src
    by (rule quarter_ends_file [of fs src "''AAA''" cols "\<lambda>c. Num 2"])
      (simp_all add: fs_def full_def cols_def)
  have sec: "\<forall>s. load_sector_map [] ''AAA'' = Some s \<longrightarrow> s \<notin> EXCLUDED_SECTORS"
    by (simp add: load_sector_map_def)
  have a: "survives fs [] ''AAA''"
    by (rule conjI, rule sec, rule conjI, rule cov, rule conjI, rule cov, rule cov)
  have ex: "\<exists>t. survives fs [] t" by (rule exI [of _ "''AAA''"]) (rule a)
  from build_ratio_panel_survivors [OF sv parse cols, THEN conjunct2, THEN mp, OF ex]
  obtain p where p: "build_ratio_panel sv fs [] = Inr p"
    and t: "ticker ` set (prows p) = {t. survives fs [] t}"
    by (elim exE conjE)
  have m: "''AAA'' \<in> ticker ` set (prows p)"
    unfolding t by (rule CollectI) (rule a)
  note all = conjI [OF p conjI [OF m build_ratio_panel_all_quarters [OF p m]]]
  show ?thesis
    by (rule exI [of _ p]) (rule all [unfolded sv_def fs_def full_def cols_def])
qed




end
